theory Spec2Isabelle
  imports Main "HOL-Library.Word"
begin

unbundle bit_operations_syntax

section \<open>Entity identifiers\<close>

text \<open>
  An entity identifier is a \<open>uint64_t\<close>; its index and its version are \<open>uint32_t\<close>.
  Sizes and positions of the standard containers (\<open>size_t\<close>) are natural numbers.
\<close>

type_synonym entity = "64 word"

text \<open>
  Modelled from the spec: \<open>ecfw/detail/entity.hpp\<close> is not among the sources. The spec
  gives the identifier as a 64-bit value made of a 32-bit index and a 32-bit version;
  \<open>world::create\<close> returns \<open>static_cast<uint64_t>(size)\<close> for a new slot of version 0,
  so the index is the low half and the version the high half.
\<close>

definition make_entity :: "32 word \<Rightarrow> 32 word \<Rightarrow> entity" where
  "make_entity ver idx = push_bit 32 (ucast ver) OR ucast idx"

text \<open>Modelled from the spec: the low 32 bits of the identifier (see \<open>make_entity\<close>).\<close>

definition index_from_entity :: "entity \<Rightarrow> 32 word" where
  "index_from_entity eid = ucast eid"

text \<open>Modelled from the spec: the high 32 bits of the identifier (see \<open>make_entity\<close>).\<close>

definition version_from_entity :: "entity \<Rightarrow> 32 word" where
  "version_from_entity eid = ucast (drop_bit 32 eid)"

section \<open>Bitsets and sparse sets\<close>

text \<open>
  A \<open>boost::dynamic_bitset\<close> is the list of its bits; two bitsets are equal when they
  have the same size and the same bits, which is equality of lists.
\<close>

type_synonym bitset = "bool list"

text \<open>\<open>detail::contains\<close> of world.hpp: a bounds-checked bit test.\<close>

definition dtl_contains :: "bitset \<Rightarrow> nat \<Rightarrow> bool" where
  "dtl_contains bitset position \<longleftrightarrow> position < length bitset \<and> bitset ! position"

text \<open>\<open>dynamic_bitset::resize(n)\<close>: new bits are clear.\<close>

definition bitset_resize :: "bitset \<Rightarrow> nat \<Rightarrow> bitset" where
  "bitset_resize bs n = (if n \<le> length bs then take n bs else bs @ replicate (n - length bs) False)"

text \<open>
  The positions of the set bits in increasing order: the sequence that
  \<open>find_first\<close> / \<open>find_next\<close> walk through.
\<close>

definition set_bits :: "bitset \<Rightarrow> nat list" where
  "set_bits bs = filter (\<lambda>i. bs ! i) [0..<length bs]"

text \<open>
  Modelled from the spec: \<open>ecfw/detail/sparse_set.hpp\<close> is not among the sources. The spec
  describes an ordered set of 64-bit identifiers with insert, erase and contains, iterated
  in the insertion order of its dense array. The model is that dense array: a list without
  repetition, a new element going to the end, and erasing an absent element a no-op.
\<close>

type_synonym sparse_set = "entity list"

text \<open>Modelled from the spec: membership test of the sparse set.\<close>

definition sparse_contains :: "sparse_set \<Rightarrow> entity \<Rightarrow> bool" where
  "sparse_contains s x \<longleftrightarrow> x \<in> set s"

text \<open>Modelled from the spec: insertion at the end of the dense array, once.\<close>

definition sparse_insert :: "sparse_set \<Rightarrow> entity \<Rightarrow> sparse_set" where
  "sparse_insert s x = (if sparse_contains s x then s else s @ [x])"

text \<open>Modelled from the spec: removal of an element; the others keep their order.\<close>

definition sparse_erase :: "sparse_set \<Rightarrow> entity \<Rightarrow> sparse_set" where
  "sparse_erase s x = removeAll x s"

section \<open>The world\<close>

text \<open>
  A component type is identified by its \<open>std::type_index\<close>, here a natural number.
  Component values of all types live in one value type \<open>'v\<close>.
\<close>

type_synonym type_index = nat

text \<open>
  The members of \<open>ecfw::world\<close>. The stack \<open>m_free_list\<close> has its top at the head of
  the list. The \<open>unordered_map\<close> \<open>m_type_positions\<close> and \<open>m_groups\<close> are association
  lists in insertion order, looked up with \<open>map_of\<close>; an entry is only ever added
  after a failed lookup of its key.
\<close>

record 'v world =
  m_free_list :: "32 word list"
  m_versions :: "32 word list"
  m_type_positions :: "(type_index \<times> nat) list"
  m_metabuffers :: "bitset list"
  m_buffers :: "'v list list"
  m_groups :: "(bitset \<times> sparse_set) list"

definition empty_world :: "'v world" where
  "empty_world = \<lparr> m_free_list = [], m_versions = [], m_type_positions = [],
     m_metabuffers = [], m_buffers = [], m_groups = [] \<rparr>"

text \<open>
  A failed \<open>assert\<close>, a failed \<open>static_assert\<close> (the call does not compile), the
  exception of \<open>unordered_map::at\<close>, and an unchecked container access out of range.
\<close>

datatype error = Assertion_failed | Static_assertion_failed | Out_of_range | Undefined_behaviour

subsection \<open>Validity and presence\<close>

definition valid :: "'v world \<Rightarrow> entity \<Rightarrow> bool" where
  "valid w eid \<longleftrightarrow>
     (let idx = index_from_entity eid; ver = version_from_entity eid
      in unat idx < length (m_versions w) \<and> m_versions w ! unat idx = ver)"

text \<open>\<open>world::contains<T>()\<close>: the type is managed by the world.\<close>

definition contains_type :: "'v world \<Rightarrow> type_index \<Rightarrow> bool" where
  "contains_type w T \<longleftrightarrow> map_of (m_type_positions w) T \<noteq> None"

text \<open>\<open>world::has<T>(eid)\<close> for one component type.\<close>

definition has :: "'v world \<Rightarrow> type_index \<Rightarrow> entity \<Rightarrow> error + bool" where
  "has w T eid =
     (if \<not> valid w eid \<or> \<not> contains_type w T then Inr False
      else case map_of (m_type_positions w) T of
        None \<Rightarrow> Inl Out_of_range
      | Some type_position \<Rightarrow>
          if type_position < length (m_metabuffers w)
          then Inr (dtl_contains (m_metabuffers w ! type_position) (unat (index_from_entity eid)))
          else Inl Undefined_behaviour)"

subsection \<open>Registration of component types\<close>

text \<open>\<open>world::accommodate<T>()\<close>: the position of the type, registered if new.\<close>

definition accommodate :: "'v world \<Rightarrow> type_index \<Rightarrow> error + (nat \<times> 'v world)" where
  "accommodate w T =
     (case map_of (m_type_positions w) T of
        Some type_position \<Rightarrow> Inr (type_position, w)
      | None \<Rightarrow>
          let type_position = length (m_type_positions w);
              w' = w\<lparr> m_type_positions := m_type_positions w @ [(T, type_position)],
                      m_buffers := m_buffers w @ [[]],
                      m_metabuffers := m_metabuffers w @ [[]] \<rparr>
          in if length (m_type_positions w') = length (m_buffers w')
                \<and> length (m_type_positions w') = length (m_metabuffers w')
             then Inr (type_position, w') else Inl Assertion_failed)"

subsection \<open>Assignment and removal of components\<close>

text \<open>
  The inner loop of \<open>world::assign\<close> over the set bits of a filter: does the entity
  index own every component of the filter? The loop stops at the first missing one.
\<close>

fun has_all :: "bitset list \<Rightarrow> nat \<Rightarrow> nat list \<Rightarrow> error + bool" where
  "has_all mbs idx [] = Inr True"
| "has_all mbs idx (i # rest) =
     (if i < length mbs
      then (if dtl_contains (mbs ! i) idx then has_all mbs idx rest else Inr False)
      else Inl Undefined_behaviour)"

text \<open>One iteration of the loop of \<open>world::assign\<close> over the groups.\<close>

definition assign_group ::
  "bitset list \<Rightarrow> nat \<Rightarrow> entity \<Rightarrow> bitset \<times> sparse_set \<Rightarrow> error + (bitset \<times> sparse_set)" where
  "assign_group mbs type_position eid fg =
     (case fg of (filt, grp) \<Rightarrow>
        if sparse_contains grp eid then Inr (filt, grp)
        else if \<not> dtl_contains filt type_position then Inr (filt, grp)
        else case has_all mbs (unat (index_from_entity eid)) (set_bits filt) of
               Inl e \<Rightarrow> Inl e
             | Inr b \<Rightarrow> Inr (filt, if b then sparse_insert grp eid else grp))"

fun assign_groups ::
  "bitset list \<Rightarrow> nat \<Rightarrow> entity \<Rightarrow> (bitset \<times> sparse_set) list
     \<Rightarrow> error + (bitset \<times> sparse_set) list" where
  "assign_groups mbs type_position eid [] = Inr []"
| "assign_groups mbs type_position eid (fg # rest) =
     (case assign_group mbs type_position eid fg of
        Inl e \<Rightarrow> Inl e
      | Inr fg' \<Rightarrow>
          (case assign_groups mbs type_position eid rest of
             Inl e \<Rightarrow> Inl e
           | Inr rest' \<Rightarrow> Inr (fg' # rest')))"

text \<open>
  The metabuffer part of \<open>world::assign\<close>: the bitset grows to hold the entity index
  if it is too short, and the bit of the index is set.
\<close>

definition set_presence :: "bitset \<Rightarrow> nat \<Rightarrow> bitset" where
  "set_presence metabuffer idx =
     (let metabuffer = (if idx \<ge> length metabuffer
                        then bitset_resize metabuffer (idx + 1) else metabuffer)
      in metabuffer[idx := True])"

text \<open>
  The buffer part of \<open>world::assign\<close>: the vector grows to hold the entity index if it
  is too short, new slots holding the value-initialised \<open>dflt\<close>, and the component
  \<open>x\<close> is stored at the index.
\<close>

definition store_component :: "'v list \<Rightarrow> nat \<Rightarrow> 'v \<Rightarrow> 'v \<Rightarrow> 'v list" where
  "store_component buffer idx dflt x =
     (let buffer = (if idx \<ge> length buffer
                    then buffer @ replicate (idx + 1 - length buffer) dflt else buffer)
      in buffer[idx := x])"

text \<open>
  \<open>world::assign<T>(eid, args...)\<close>. The parameter \<open>dflt\<close> is the value-initialised
  \<open>T\<close> that \<open>vector::resize\<close> fills new slots with, \<open>x\<close> the component built from
  \<open>args\<close>. The returned reference is the slot of \<open>x\<close> in the new world.
\<close>

definition assign :: "'v world \<Rightarrow> type_index \<Rightarrow> 'v \<Rightarrow> entity \<Rightarrow> 'v \<Rightarrow> error + 'v world" where
  "assign w T dflt eid x =
     (if \<not> valid w eid then Inl Assertion_failed
      else case has w T eid of
        Inl e \<Rightarrow> Inl e
      | Inr True \<Rightarrow> Inl Assertion_failed
      | Inr False \<Rightarrow>
          (case accommodate w T of
             Inl e \<Rightarrow> Inl e
           | Inr (type_position, w1) \<Rightarrow>
               let idx = unat (index_from_entity eid) in
               if \<not> type_position < length (m_metabuffers w1) then Inl Undefined_behaviour
               else
                 let mbs = (m_metabuffers w1)
                       [type_position := set_presence (m_metabuffers w1 ! type_position) idx]
                 in case assign_groups mbs type_position eid (m_groups w1) of
                      Inl e \<Rightarrow> Inl e
                    | Inr groups \<Rightarrow>
                        if \<not> type_position < length (m_buffers w1) then Inl Undefined_behaviour
                        else Inr (w1\<lparr> m_metabuffers := mbs, m_groups := groups,
                               m_buffers := (m_buffers w1)
                                 [type_position :=
                                    store_component (m_buffers w1 ! type_position) idx dflt x] \<rparr>)))"

text \<open>\<open>world::remove<T>(eid)\<close> for one component type.\<close>

definition remove :: "'v world \<Rightarrow> type_index \<Rightarrow> entity \<Rightarrow> error + 'v world" where
  "remove w T eid =
     (if \<not> valid w eid then Inl Assertion_failed
      else case has w T eid of
        Inl e \<Rightarrow> Inl e
      | Inr False \<Rightarrow> Inl Assertion_failed
      | Inr True \<Rightarrow>
          (case map_of (m_type_positions w) T of
             None \<Rightarrow> Inl Out_of_range
           | Some type_position \<Rightarrow>
               if \<not> type_position < length (m_metabuffers w) then Inl Undefined_behaviour
               else
                 let metabuffer = (m_metabuffers w ! type_position)
                                    [unat (index_from_entity eid) := False]
                 in Inr (w\<lparr> m_metabuffers := (m_metabuffers w)[type_position := metabuffer],
                            m_groups := map (\<lambda>(filt, grp).
                               if dtl_contains filt type_position
                               then (filt, sparse_erase grp eid)
                               else (filt, grp)) (m_groups w) \<rparr>)))"

subsection \<open>Destruction\<close>

text \<open>\<open>world::orphan(eid)\<close>: the entity loses all components and leaves all groups.\<close>

definition orphan :: "'v world \<Rightarrow> entity \<Rightarrow> error + 'v world" where
  "orphan w eid =
     (if \<not> valid w eid then Inl Assertion_failed
      else
        let idx = unat (index_from_entity eid)
        in Inr (w\<lparr> m_metabuffers := map (\<lambda>metabuffer.
                       if dtl_contains metabuffer idx then metabuffer[idx := False]
                       else metabuffer) (m_metabuffers w),
                   m_groups := map (\<lambda>(filt, grp). (filt, sparse_erase grp eid))
                       (m_groups w) \<rparr>))"

text \<open>\<open>world::destroy(eid)\<close>.\<close>

definition destroy :: "'v world \<Rightarrow> entity \<Rightarrow> error + 'v world" where
  "destroy w eid =
     (case orphan w eid of
        Inl e \<Rightarrow> Inl e
      | Inr w1 \<Rightarrow>
          let idx = index_from_entity eid; ver = version_from_entity eid
          in if \<not> ver < 0xFFFFFFFF then Inl Assertion_failed
             else Inr (w1\<lparr> m_versions := (m_versions w1)[unat idx := ver + 1],
                          m_free_list := idx # m_free_list w1 \<rparr>))"

subsection \<open>Creation\<close>

text \<open>
  The fold \<open>(assign<Ts>(entity), ...)\<close> of \<open>world::create<Ts...>\<close>: every component is
  default-constructed, so each type comes with its value-initialised component.
\<close>

fun assign_each :: "'v world \<Rightarrow> (type_index \<times> 'v) list \<Rightarrow> entity \<Rightarrow> error + 'v world" where
  "assign_each w [] eid = Inr w"
| "assign_each w ((T, dflt) # Ts) eid =
     (case assign w T dflt eid dflt of
        Inl e \<Rightarrow> Inl e
      | Inr w' \<Rightarrow> assign_each w' Ts eid)"

text \<open>\<open>world::create<Ts...>()\<close>.\<close>

definition create :: "'v world \<Rightarrow> (type_index \<times> 'v) list \<Rightarrow> error + (entity \<times> 'v world)" where
  "create w Ts =
     (if \<not> distinct (map fst Ts) then Inl Static_assertion_failed
      else case m_free_list w of
        idx # rest \<Rightarrow>
          if \<not> unat idx < length (m_versions w) then Inl Undefined_behaviour
          else
            let ver = m_versions w ! unat idx;
                entity = make_entity ver idx
            in (case assign_each (w\<lparr> m_free_list := rest \<rparr>) Ts entity of
                  Inl e \<Rightarrow> Inl e
                | Inr w' \<Rightarrow> Inr (entity, w'))
      | [] \<Rightarrow>
          let size = length (m_versions w)
          in if \<not> size < 0xFFFFFFFF then Inl Assertion_failed
             else
               let entity = (of_nat size :: entity)
               in (case assign_each (w\<lparr> m_versions := m_versions w @ [0] \<rparr>) Ts entity of
                     Inl e \<Rightarrow> Inl e
                   | Inr w' \<Rightarrow> Inr (entity, w')))"

text \<open>
  \<open>world::assign_or_replace<T>(eid, args...)\<close>: an entity that owns the component has
  its value swapped for the new one, through the reference that \<open>get<T>\<close> returns.
\<close>

definition assign_or_replace ::
  "'v world \<Rightarrow> type_index \<Rightarrow> 'v \<Rightarrow> entity \<Rightarrow> 'v \<Rightarrow> error + 'v world" where
  "assign_or_replace w T dflt eid x =
     (if \<not> valid w eid then Inl Assertion_failed
      else case has w T eid of
        Inl e \<Rightarrow> Inl e
      | Inr False \<Rightarrow> assign w T dflt eid x
      | Inr True \<Rightarrow>
          (case map_of (m_type_positions w) T of
             None \<Rightarrow> Inl Out_of_range
           | Some type_position \<Rightarrow>
               let idx = unat (index_from_entity eid) in
               if type_position < length (m_buffers w)
                  \<and> idx < length (m_buffers w ! type_position)
               then Inr (w\<lparr> m_buffers := (m_buffers w)
                           [type_position := (m_buffers w ! type_position)[idx := x]] \<rparr>)
               else Inl Undefined_behaviour))"

text \<open>
  \<open>world::reserve<T>(n)\<close>: the type is registered; \<open>reserve\<close> on the vector and on the
  bitset changes their capacity only, which the model does not hold.
\<close>

definition reserve :: "'v world \<Rightarrow> type_index \<Rightarrow> error + 'v world" where
  "reserve w T =
     (case accommodate w T of
        Inl e \<Rightarrow> Inl e
      | Inr (type_position, w1) \<Rightarrow>
          if type_position < length (m_buffers w1) \<and> type_position < length (m_metabuffers w1)
          then Inr w1 else Inl Undefined_behaviour)"

subsection \<open>Groups and views\<close>

text \<open>
  The scan of \<open>world::group_by\<close> over \<open>m_versions\<close> that builds a new group; \<open>index\<close> is
  the \<open>uint32_t\<close> counter of the loop.
\<close>

fun group_scan ::
  "bitset list \<Rightarrow> nat list \<Rightarrow> 32 word \<Rightarrow> 32 word list \<Rightarrow> sparse_set \<Rightarrow> sparse_set" where
  "group_scan mbs type_positions index [] grp = grp"
| "group_scan mbs type_positions index (version # rest) grp =
     (let has_all = list_all (\<lambda>type_position.
                      dtl_contains (mbs ! type_position) (unat index)) type_positions;
          entity = make_entity version index
      in group_scan mbs type_positions (index + 1) rest
           (if has_all then sparse_insert grp entity else grp))"

text \<open>The filter of \<open>world::group_by\<close>: one bit per requested type position.\<close>

definition make_filter :: "nat list \<Rightarrow> nat \<Rightarrow> bitset" where
  "make_filter type_positions largest_type_position =
     fold (\<lambda>type_position filt. filt[type_position := True]) type_positions
       (replicate (largest_type_position + 1) False)"

text \<open>
  \<open>world::group_by(type_positions)\<close>. The returned reference to the cached sparse set is
  the key of the cache entry: the filter.
\<close>

definition group_by :: "'v world \<Rightarrow> nat list \<Rightarrow> error + (bitset \<times> 'v world)" where
  "group_by w type_positions =
     (case type_positions of
        [] \<Rightarrow> Inl Undefined_behaviour
      | p # ps \<Rightarrow>
          let largest_type_position = fold max ps p in
          if \<not> (largest_type_position < length (m_type_positions w)
                \<and> largest_type_position < length (m_metabuffers w)
                \<and> largest_type_position < length (m_buffers w))
          then Inl Assertion_failed
          else
            let filt = make_filter type_positions largest_type_position
            in case map_of (m_groups w) filt of
                 Some grp \<Rightarrow> Inr (filt, w)
               | None \<Rightarrow>
                   let grp = group_scan (m_metabuffers w) type_positions 0 (m_versions w) []
                   in Inr (filt, w\<lparr> m_groups := m_groups w @ [(filt, grp)] \<rparr>))"

text \<open>The calls \<open>accommodate<T>(), accommodate<Ts>()...\<close> of \<open>world::view\<close>, left to right.\<close>

fun accommodate_each :: "'v world \<Rightarrow> type_index list \<Rightarrow> error + (nat list \<times> 'v world)" where
  "accommodate_each w [] = Inr ([], w)"
| "accommodate_each w (T # Ts) =
     (case accommodate w T of
        Inl e \<Rightarrow> Inl e
      | Inr (type_position, w1) \<Rightarrow>
          (case accommodate_each w1 Ts of
             Inl e \<Rightarrow> Inl e
           | Inr (type_positions, w2) \<Rightarrow> Inr (type_position # type_positions, w2)))"

text \<open>
  \<open>world::view<T, Ts...>()\<close>. A view holds a reference to its group, so the model of a
  view is the key of the group in \<open>m_groups\<close>; the view's \<open>begin()\<close> .. \<open>end()\<close>,
  \<open>size()\<close> and \<open>contains\<close> read the group of that key in the current world.
\<close>

definition view :: "'v world \<Rightarrow> type_index list \<Rightarrow> error + (bitset \<times> 'v world)" where
  "view w Ts =
     (if Ts = [] \<or> \<not> distinct Ts then Inl Static_assertion_failed
      else case accommodate_each w Ts of
        Inl e \<Rightarrow> Inl e
      | Inr (type_positions, w1) \<Rightarrow> group_by w1 type_positions)"

definition view_entities :: "'v world \<Rightarrow> bitset \<Rightarrow> sparse_set option" where
  "view_entities w v = map_of (m_groups w) v"

definition view_size :: "'v world \<Rightarrow> bitset \<Rightarrow> nat option" where
  "view_size w v = map_option length (view_entities w v)"

definition view_contains :: "'v world \<Rightarrow> bitset \<Rightarrow> entity \<Rightarrow> bool option" where
  "view_contains w v eid = map_option (\<lambda>grp. sparse_contains grp eid) (view_entities w v)"

subsection \<open>Operations over ranges\<close>

text \<open>\<open>world::create<Ts...>(OutIt out, size_t n)\<close>: the created entities in order.\<close>

fun create_n ::
  "'v world \<Rightarrow> (type_index \<times> 'v) list \<Rightarrow> nat \<Rightarrow> error + (entity list \<times> 'v world)" where
  "create_n w Ts 0 = Inr ([], w)"
| "create_n w Ts (Suc n) =
     (case create w Ts of
        Inl e \<Rightarrow> Inl e
      | Inr (entity, w1) \<Rightarrow>
          (case create_n w1 Ts n of
             Inl e \<Rightarrow> Inl e
           | Inr (entities, w2) \<Rightarrow> Inr (entity # entities, w2)))"

text \<open>\<open>world::assign<T>(first, last)\<close>: every component is default-constructed.\<close>

fun assign_range :: "'v world \<Rightarrow> type_index \<Rightarrow> 'v \<Rightarrow> entity list \<Rightarrow> error + 'v world" where
  "assign_range w T dflt [] = Inr w"
| "assign_range w T dflt (eid # rest) =
     (case assign w T dflt eid dflt of
        Inl e \<Rightarrow> Inl e
      | Inr w' \<Rightarrow> assign_range w' T dflt rest)"

text \<open>\<open>world::remove<T>(first, last)\<close>.\<close>

fun remove_range :: "'v world \<Rightarrow> type_index \<Rightarrow> entity list \<Rightarrow> error + 'v world" where
  "remove_range w T [] = Inr w"
| "remove_range w T (eid # rest) =
     (case remove w T eid of
        Inl e \<Rightarrow> Inl e
      | Inr w' \<Rightarrow> remove_range w' T rest)"

subsection \<open>Reachable worlds\<close>

text \<open>
  The structural operations of the public interface. The forms over several types or
  over a range of entities, and \<open>clone\<close>, are sequences of these.
\<close>

datatype 'v op =
    Create "(type_index \<times> 'v) list"
  | Destroy entity
  | Orphan entity
  | Assign type_index 'v entity 'v
  | Assign_or_replace type_index 'v entity 'v
  | Remove type_index entity
  | View "type_index list"
  | Reserve type_index

fun apply_op :: "'v world \<Rightarrow> 'v op \<Rightarrow> error + 'v world" where
  "apply_op w (Create Ts) = map_sum id snd (create w Ts)"
| "apply_op w (Destroy eid) = destroy w eid"
| "apply_op w (Orphan eid) = orphan w eid"
| "apply_op w (Assign T dflt eid x) = assign w T dflt eid x"
| "apply_op w (Assign_or_replace T dflt eid x) = assign_or_replace w T dflt eid x"
| "apply_op w (Remove T eid) = remove w T eid"
| "apply_op w (View Ts) = map_sum id snd (view w Ts)"
| "apply_op w (Reserve T) = reserve w T"

text \<open>A world is reachable when operations that all succeed lead to it from the empty world.\<close>

inductive reachable :: "'v world \<Rightarrow> bool" where
  reachable_empty: "reachable empty_world"
| reachable_step: "reachable w \<Longrightarrow> apply_op w operation = Inr w' \<Longrightarrow> reachable w'"

text \<open>Running a list of operations, stopping at the first failure.\<close>

fun run :: "'v world \<Rightarrow> 'v op list \<Rightarrow> error + 'v world" where
  "run w [] = Inr w"
| "run w (operation # rest) =
     (case apply_op w operation of Inl e \<Rightarrow> Inl e | Inr w' \<Rightarrow> run w' rest)"

subsection \<open>Presence bits and invariants of the representation\<close>

text \<open>The presence bit of the type at \<open>type_position\<close> for the entity index \<open>idx\<close>.\<close>

definition presence_bit :: "'v world \<Rightarrow> nat \<Rightarrow> nat \<Rightarrow> bool" where
  "presence_bit w type_position idx \<longleftrightarrow>
     type_position < length (m_metabuffers w)
     \<and> dtl_contains (m_metabuffers w ! type_position) idx"

text \<open>The entity satisfies the filter: it is valid and owns every type of the filter.\<close>

definition matches :: "'v world \<Rightarrow> bitset \<Rightarrow> entity \<Rightarrow> bool" where
  "matches w filt eid \<longleftrightarrow>
     valid w eid
     \<and> (\<forall>t. dtl_contains filt t \<longrightarrow> presence_bit w t (unat (index_from_entity eid)))"

text \<open>Type positions are dense, and every type has its metabuffer and its buffer.\<close>

definition wf_types :: "'v world \<Rightarrow> bool" where
  "wf_types w \<longleftrightarrow>
     map snd (m_type_positions w) = [0..<length (m_type_positions w)]
     \<and> length (m_metabuffers w) = length (m_type_positions w)
     \<and> length (m_buffers w) = length (m_type_positions w)"

text \<open>
  Indices fit 32 bits, the free list holds indices of slots, and no metabuffer is longer
  than the slot table.
\<close>

definition wf_entities :: "'v world \<Rightarrow> bool" where
  "wf_entities w \<longleftrightarrow>
     length (m_versions w) \<le> 4294967295
     \<and> (\<forall>idx \<in> set (m_free_list w). unat idx < length (m_versions w))
     \<and> (\<forall>metabuffer \<in> set (m_metabuffers w). length metabuffer \<le> length (m_versions w))"

text \<open>Every cached filter has a set bit, and only bits of registered type positions.\<close>

definition wf_filters :: "'v world \<Rightarrow> bool" where
  "wf_filters w \<longleftrightarrow>
     (\<forall>(filt, grp) \<in> set (m_groups w).
        length filt \<le> length (m_metabuffers w) \<and> (\<exists>t. dtl_contains filt t))"

text \<open>Every cached group holds exactly the entities that satisfy its filter.\<close>

definition groups_exact :: "'v world \<Rightarrow> bool" where
  "groups_exact w \<longleftrightarrow>
     (\<forall>(filt, grp) \<in> set (m_groups w). set grp = {eid. matches w filt eid})"

definition wf_world :: "'v world \<Rightarrow> bool" where
  "wf_world w \<longleftrightarrow> wf_types w \<and> wf_entities w \<and> wf_filters w \<and> groups_exact w"

text \<open>
  The presence bit of the component type \<open>T\<close> for the entity index \<open>idx\<close>; a type
  that the world does not manage has no bit.
\<close>

definition type_presence_bit :: "'v world \<Rightarrow> type_index \<Rightarrow> nat \<Rightarrow> bool" where
  "type_presence_bit w T idx \<longleftrightarrow>
     (case map_of (m_type_positions w) T of
        None \<Rightarrow> False
      | Some type_position \<Rightarrow> presence_bit w type_position idx)"

subsection \<open>Example worlds\<close>

text \<open>
  A small run: views of the types 0, 1 and both, two entities, the component 0 on both
  entities and the component 1 on the first; and the world it leads to.
\<close>

definition example_ops :: "nat op list" where
  "example_ops = [View [0], View [1], View [0, 1], Create [], Create [],
     Assign 0 0 0 7, Assign 0 0 1 8, Assign 1 0 0 9]"

definition example_world :: "nat world" where
  "example_world = \<lparr> m_free_list = [], m_versions = [0, 0],
     m_type_positions = [(0, 0), (1, 1)],
     m_metabuffers = [[True, True], [True]], m_buffers = [[7, 8], [9]],
     m_groups = [([True], [0, 1]), ([False, True], [0]), ([True, True], [0])] \<rparr>"

text \<open>A world with one slot that has been destroyed and created again \<open>v\<close> times.\<close>

definition recycled_world :: "32 word \<Rightarrow> nat world" where
  "recycled_world v = \<lparr> m_free_list = [], m_versions = [v], m_type_positions = [],
     m_metabuffers = [], m_buffers = [], m_groups = [] \<rparr>"

text \<open>The slot 0 has reached the last version; the slot 1 is new.\<close>

definition worn_world :: "nat world" where
  "worn_world = \<lparr> m_free_list = [], m_versions = [0xFFFFFFFF, 0], m_type_positions = [],
     m_metabuffers = [], m_buffers = [], m_groups = [] \<rparr>"

subsection \<open>The scenario of a hundred entities\<close>

text \<open>The identifier of version 0 at index \<open>i\<close>: the \<open>i\<close>-th entity of a new world.\<close>

definition entity_at :: "nat \<Rightarrow> entity" where
  "entity_at i = make_entity 0 (of_nat i)"

text \<open>
  The world with views of the types 0, 1 and both and with a hundred entities, after
  the component 0 was assigned to the first \<open>a\<close> entities, the component 1 to the first
  \<open>b\<close>, and the component 0 was removed from the first \<open>c\<close>, each in creation order.
\<close>

definition scenario_world :: "nat \<Rightarrow> nat \<Rightarrow> nat \<Rightarrow> nat world" where
  "scenario_world a b c =
     \<lparr> m_free_list = [], m_versions = replicate 100 0,
       m_type_positions = [(0, 0), (1, 1)],
       m_metabuffers = [replicate c False @ replicate (a - c) True, replicate b True],
       m_buffers = [replicate a 0, replicate b 0],
       m_groups = [([True], map entity_at [c..<a]),
                   ([False, True], map entity_at [0..<b]),
                   ([True, True], map entity_at [c..<min a b])] \<rparr>"

section \<open>Evaluation of entity identifiers\<close>

lemma index_from_make_entity [simp]: "index_from_entity (make_entity v i) = i"
  unfolding index_from_entity_def make_entity_def
  by (rule bit_word_eqI) (auto simp: bit_simps)

lemma version_from_make_entity [simp]: "version_from_entity (make_entity v i) = v"
  unfolding version_from_entity_def make_entity_def
  by (rule bit_word_eqI) (auto simp: bit_simps dest: bit_imp_le_length)

lemma make_entity_split: "make_entity (version_from_entity e) (index_from_entity e) = e"
  unfolding version_from_entity_def make_entity_def index_from_entity_def
  by (rule bit_word_eqI) (auto simp: bit_simps)

lemma make_entity_eq_iff [simp]: "make_entity v i = make_entity v' i' \<longleftrightarrow> v = v' \<and> i = i'"
  by (metis index_from_make_entity version_from_make_entity)

section \<open>Sparse sets, validity and presence bits\<close>

lemma sparse_erase_set [simp]: "set (sparse_erase s x) = set s - {x}"
  by (simp add: sparse_erase_def)

lemma sparse_insert_set [simp]: "set (sparse_insert s x) = insert x (set s)"
  by (auto simp: sparse_insert_def sparse_contains_def)

lemma valid_iff:
  "valid w eid \<longleftrightarrow> unat (index_from_entity eid) < length (m_versions w)
     \<and> m_versions w ! unat (index_from_entity eid) = version_from_entity eid"
  by (simp add: valid_def Let_def)

lemma orphan_valid:
  "valid w eid \<Longrightarrow> \<exists>w'. orphan w eid = Inr w'"
  by (simp add: orphan_def Let_def)

lemma has_True_iff:
  "has w T eid = Inr True \<longleftrightarrow>
     valid w eid \<and> (\<exists>tp. map_of (m_type_positions w) T = Some tp \<and> presence_bit w tp (unat (index_from_entity eid)))"
  by (auto simp: has_def contains_type_def presence_bit_def split: option.splits)

lemma destroy_eq:
  assumes "valid w eid" "version_from_entity eid < 0xFFFFFFFF"
  shows "destroy w eid =
     Inr (w\<lparr> m_metabuffers := map (\<lambda>metabuffer.
                       if dtl_contains metabuffer (unat (index_from_entity eid))
                       then metabuffer[unat (index_from_entity eid) := False]
                       else metabuffer) (m_metabuffers w),
              m_groups := map (\<lambda>(filt, grp). (filt, sparse_erase grp eid)) (m_groups w),
              m_versions := (m_versions w)[unat (index_from_entity eid) := version_from_entity eid + 1],
              m_free_list := index_from_entity eid # m_free_list w \<rparr>)"
  using assms by (simp add: destroy_def orphan_def Let_def)

lemma destroy_invalid: "\<not> valid w eid \<Longrightarrow> destroy w eid = Inl Assertion_failed"
  by (simp add: destroy_def orphan_def)

lemma destroy_worn: "valid w eid \<Longrightarrow> \<not> version_from_entity eid < 0xFFFFFFFF \<Longrightarrow> destroy w eid = Inl Assertion_failed"
  by (simp add: destroy_def orphan_def Let_def)

lemma create_recycle:
  assumes "m_free_list w = idx # rest" "unat idx < length (m_versions w)"
  shows "create w [] = Inr (make_entity (m_versions w ! unat idx) idx, w\<lparr> m_free_list := rest \<rparr>)"
  using assms by (simp add: create_def Let_def)

lemma presence_bit_cleared:
  "\<not> presence_bit (w\<lparr> m_metabuffers := map (\<lambda>metabuffer.
                       if dtl_contains metabuffer idx
                       then metabuffer[idx := False]
                       else metabuffer) (m_metabuffers w)\<rparr>) t idx"
  by (cases "t < length (m_metabuffers w)") (auto simp: presence_bit_def dtl_contains_def)

lemma presence_bit_kept:
  "i \<noteq> idx \<Longrightarrow> presence_bit (w\<lparr> m_metabuffers := map (\<lambda>metabuffer.
                       if dtl_contains metabuffer idx
                       then metabuffer[idx := False]
                       else metabuffer) (m_metabuffers w)\<rparr>) t i = presence_bit w t i"
  by (cases "t < length (m_metabuffers w)") (auto simp: presence_bit_def dtl_contains_def)

lemma presence_bit_simps [simp]:
  "presence_bit (w\<lparr> m_groups := g \<rparr>) = presence_bit w"
  "presence_bit (w\<lparr> m_versions := v \<rparr>) = presence_bit w"
  "presence_bit (w\<lparr> m_free_list := f \<rparr>) = presence_bit w"
  "presence_bit (w\<lparr> m_buffers := b \<rparr>) = presence_bit w"
  "presence_bit (w\<lparr> m_type_positions := tps \<rparr>) = presence_bit w"
  by (simp_all add: presence_bit_def fun_eq_iff)

lemma valid_simps [simp]:
  "valid (w\<lparr> m_groups := g \<rparr>) = valid w"
  "valid (w\<lparr> m_metabuffers := m \<rparr>) = valid w"
  "valid (w\<lparr> m_free_list := f \<rparr>) = valid w"
  "valid (w\<lparr> m_buffers := b \<rparr>) = valid w"
  "valid (w\<lparr> m_type_positions := tps \<rparr>) = valid w"
  by (simp_all add: valid_def fun_eq_iff)

lemma unat_next_version:
  "(v :: 32 word) < 0xFFFFFFFF \<Longrightarrow> unat (v + 1) = unat v + 1"
proof -
  assume "v < 0xFFFFFFFF"
  then have "unat v < 4294967295" by (simp add: word_less_nat_alt)
  then show ?thesis by (simp add: unat_word_ariths)
qed

section \<open>The invariants hold in every reachable world\<close>

lemma set_set_bits [simp]: "set (set_bits bs) = {i. dtl_contains bs i}"
  by (auto simp: set_bits_def dtl_contains_def)

lemma has_all_in_range:
  "\<forall>i \<in> set positions. i < length mbs \<Longrightarrow>
     has_all mbs idx positions = Inr (\<forall>i \<in> set positions. dtl_contains (mbs ! i) idx)"
  by (induction positions) auto

lemma valid_same_index:
  assumes "valid w e" "valid w e'" "index_from_entity e = index_from_entity e'"
  shows "e = e'"
proof -
  have "version_from_entity e = version_from_entity e'"
    using assms by (simp add: valid_iff)
  then show ?thesis using assms(3) by (metis make_entity_split)
qed

lemma matches_simps [simp]:
  "matches (w\<lparr> m_groups := g \<rparr>) = matches w"
  "matches (w\<lparr> m_free_list := f \<rparr>) = matches w"
  "matches (w\<lparr> m_buffers := b \<rparr>) = matches w"
  "matches (w\<lparr> m_type_positions := tps \<rparr>) = matches w"
  by (simp_all add: matches_def fun_eq_iff)

lemma wf_types_position:
  assumes "wf_types w" "map_of (m_type_positions w) T = Some p"
  shows "p < length (m_metabuffers w)" "p < length (m_buffers w)" "p < length (m_type_positions w)"
proof -
  have "(T, p) \<in> set (m_type_positions w)" using assms(2) by (rule map_of_SomeD)
  then have "p \<in> set (map snd (m_type_positions w))" by force
  moreover have "set (map snd (m_type_positions w)) = set [0..<length (m_type_positions w)]"
    using assms(1) by (simp only: wf_types_def)
  ultimately have "p < length (m_type_positions w)" by simp
  then show "p < length (m_metabuffers w)" "p < length (m_buffers w)" "p < length (m_type_positions w)"
    using assms(1) by (simp_all add: wf_types_def)
qed

lemma accommodate_old:
  "map_of (m_type_positions w) T = Some p \<Longrightarrow> accommodate w T = Inr (p, w)"
  by (simp add: accommodate_def)

lemma accommodate_new:
  assumes "map_of (m_type_positions w) T = None" "wf_types w"
  shows "accommodate w T = Inr (length (m_type_positions w),
           w\<lparr> m_type_positions := m_type_positions w @ [(T, length (m_type_positions w))],
              m_buffers := m_buffers w @ [[]],
              m_metabuffers := m_metabuffers w @ [[]] \<rparr>)"
  using assms by (simp add: accommodate_def Let_def wf_types_def)

lemma presence_bit_new_type:
  "m_metabuffers w' = m_metabuffers w @ [[]] \<Longrightarrow> presence_bit w' = presence_bit w"
  by (auto simp: presence_bit_def fun_eq_iff nth_append dtl_contains_def)

lemma valid_eqI: "m_versions w' = m_versions w \<Longrightarrow> valid w' = valid w"
  by (simp add: valid_def fun_eq_iff)

lemma matches_eqI:
  "valid w' = valid w \<Longrightarrow> presence_bit w' = presence_bit w \<Longrightarrow> matches w' = matches w"
  by (simp add: matches_def fun_eq_iff)

lemma accommodate_wf:
  assumes "wf_world w" "accommodate w T = Inr (p, w1)"
  shows "wf_world w1 \<and> map_of (m_type_positions w1) T = Some p \<and>
    p < length (m_metabuffers w1) \<and> p < length (m_buffers w1) \<and>
    presence_bit w1 = presence_bit w \<and> valid w1 = valid w \<and> matches w1 = matches w \<and>
    m_groups w1 = m_groups w \<and> m_versions w1 = m_versions w \<and> m_free_list w1 = m_free_list w \<and>
    length (m_metabuffers w) \<le> length (m_metabuffers w1) \<and>
    (map_of (m_type_positions w) T = None \<longrightarrow> (\<forall>i. \<not> presence_bit w p i))"
proof (cases "map_of (m_type_positions w) T")
  case None
  have wt: "wf_types w" using assms(1) by (simp add: wf_world_def)
  let ?w1 = "w\<lparr> m_type_positions := m_type_positions w @ [(T, length (m_type_positions w))],
            m_buffers := m_buffers w @ [[]],
            m_metabuffers := m_metabuffers w @ [[]] \<rparr>"
  have eq: "p = length (m_type_positions w)" "w1 = ?w1"
    using accommodate_new[OF None wt] assms(2) by simp_all
  have pb: "presence_bit ?w1 = presence_bit w" by (rule presence_bit_new_type) simp
  have va: "valid ?w1 = valid w" by (rule valid_eqI) simp
  have ma: "matches ?w1 = matches w" using va pb by (rule matches_eqI)
  have a: "wf_types ?w1" using wt by (simp add: wf_types_def)
  have b: "wf_entities ?w1" using assms(1) by (simp add: wf_world_def wf_entities_def)
  have c: "wf_filters ?w1" using assms(1) by (fastforce simp: wf_world_def wf_filters_def)
  have d: "groups_exact ?w1" using assms(1) by (simp add: wf_world_def groups_exact_def ma)
  have e: "map_of (m_type_positions ?w1) T = Some p" using None eq by (simp add: map_add_Some_iff)
  have f: "\<forall>i. \<not> presence_bit w p i" using eq wt by (simp add: presence_bit_def wf_types_def)
  show ?thesis
    unfolding eq(2) using a b c d e f wt eq(1) pb va ma
    by (simp add: wf_world_def wf_types_def)
next
  case (Some q)
  have wt: "wf_types w" using assms(1) by (simp add: wf_world_def)
  from Some have eq: "p = q" "w1 = w" using assms(2) by (simp_all add: accommodate_old)
  show ?thesis
    using Some eq assms(1) wf_types_position[OF wt Some] by simp
qed

lemma filter_has_bit:
  assumes "wf_filters w" "(filt, grp) \<in> set (m_groups w)"
  shows "\<exists>t. dtl_contains filt t \<and> t < length (m_metabuffers w)"
proof -
  from assms obtain t where "dtl_contains filt t" "length filt \<le> length (m_metabuffers w)"
    by (fastforce simp: wf_filters_def)
  then show ?thesis by (auto simp: dtl_contains_def)
qed

lemma matches_clear:
  assumes va: "valid w' = valid w" and v: "valid w e"
    and pb: "\<And>t i. presence_bit w' t i \<longleftrightarrow> presence_bit w t i \<and> \<not> (C t \<and> i = unat (index_from_entity e))"
  shows "dtl_contains filt t0 \<Longrightarrow> C t0 \<Longrightarrow> matches w' filt e' \<longleftrightarrow> matches w filt e' \<and> e' \<noteq> e"
    and "(\<And>t. dtl_contains filt t \<Longrightarrow> \<not> C t) \<Longrightarrow> matches w' filt e' \<longleftrightarrow> matches w filt e'"
proof -
  have idx: "valid w e' \<Longrightarrow> e' \<noteq> e \<Longrightarrow> unat (index_from_entity e') \<noteq> unat (index_from_entity e)"
    using valid_same_index[OF _ v] by (auto simp: word_unat_eq_iff)
  show "dtl_contains filt t0 \<Longrightarrow> C t0 \<Longrightarrow> matches w' filt e' \<longleftrightarrow> matches w filt e' \<and> e' \<noteq> e"
    using idx by (auto simp: matches_def va pb)
  show "(\<And>t. dtl_contains filt t \<Longrightarrow> \<not> C t) \<Longrightarrow> matches w' filt e' \<longleftrightarrow> matches w filt e'"
    by (auto simp: matches_def va pb)
qed

lemma groups_exact_mapI:
  assumes "m_groups w' = map f gs"
    and "\<And>fg. fg \<in> set gs \<Longrightarrow> set (snd (f fg)) = {e. matches w' (fst (f fg)) e}"
  shows "groups_exact w'"
proof -
  have "set (snd fg') = {e. matches w' (fst fg') e}" if "fg' \<in> set (m_groups w')" for fg'
  proof -
    from that obtain fg where "fg \<in> set gs" "fg' = f fg"
      using assms(1) by auto
    then show ?thesis using assms(2) by simp
  qed
  then show ?thesis by (fastforce simp: groups_exact_def)
qed

lemma orphan_eq:
  "valid w eid \<Longrightarrow> orphan w eid =
     Inr (w\<lparr> m_metabuffers := map (\<lambda>metabuffer.
                       if dtl_contains metabuffer (unat (index_from_entity eid))
                       then metabuffer[unat (index_from_entity eid) := False]
                       else metabuffer) (m_metabuffers w),
              m_groups := map (\<lambda>(filt, grp). (filt, sparse_erase grp eid)) (m_groups w) \<rparr>)"
  by (simp add: orphan_def Let_def)

lemma orphan_invalid: "\<not> valid w eid \<Longrightarrow> orphan w eid = Inl Assertion_failed"
  by (simp add: orphan_def)

lemma orphan_wf:
  assumes "wf_world w" "orphan w eid = Inr w'"
  shows "wf_world w' \<and> (\<forall>t. \<not> presence_bit w' t (unat (index_from_entity eid)))
     \<and> m_versions w' = m_versions w \<and> m_free_list w' = m_free_list w"
proof -
  let ?idx = "unat (index_from_entity eid)"
  let ?w' = "w\<lparr> m_metabuffers := map (\<lambda>metabuffer.
                       if dtl_contains metabuffer ?idx
                       then metabuffer[?idx := False]
                       else metabuffer) (m_metabuffers w),
              m_groups := map (\<lambda>(filt, grp). (filt, sparse_erase grp eid)) (m_groups w) \<rparr>"
  have v: "valid w eid" using assms(2) by (cases "valid w eid") (simp_all add: orphan_invalid)
  then have eq: "w' = ?w'" using assms(2) by (simp add: orphan_eq)
  have va: "valid ?w' = valid w" by (rule valid_eqI) simp
  have pb: "presence_bit ?w' t i \<longleftrightarrow> presence_bit w t i \<and> \<not> (True \<and> i = ?idx)" for t i
    by (cases "i = ?idx") (simp_all add: presence_bit_cleared presence_bit_kept)
  have a: "wf_types ?w'" using assms(1) by (simp add: wf_world_def wf_types_def)
  have b: "wf_entities ?w'" using assms(1) by (auto simp: wf_world_def wf_entities_def)
  have c: "wf_filters ?w'" using assms(1) by (fastforce simp: wf_world_def wf_filters_def)
  have d: "groups_exact ?w'"
  proof (rule groups_exact_mapI[where gs = "m_groups w"
        and f = "\<lambda>(filt, grp). (filt, sparse_erase grp eid)"])
    show "m_groups ?w' = map (\<lambda>(filt, grp). (filt, sparse_erase grp eid)) (m_groups w)"
      by simp
  next
    fix fg assume mem: "fg \<in> set (m_groups w)"
    obtain filt grp where fg: "fg = (filt, grp)" by (cases fg)
    have m: "(filt, grp) \<in> set (m_groups w)" using mem fg by simp
    have "wf_filters w" using assms(1) by (simp add: wf_world_def)
    from filter_has_bit[OF this m] obtain t0 where t0: "dtl_contains filt t0"
      by blast
    have "set grp = {e. matches w filt e}"
      using m assms(1) by (auto simp: wf_world_def groups_exact_def)
    then have "set grp - {eid} = {e. matches ?w' filt e}"
      using matches_clear(1)[where C = "\<lambda>_. True", OF va v pb t0] by auto
    then show "set (snd ((\<lambda>(filt, grp). (filt, sparse_erase grp eid)) fg))
        = {e. matches ?w' (fst ((\<lambda>(filt, grp). (filt, sparse_erase grp eid)) fg)) e}"
      by (simp add: fg)
  qed
  show ?thesis unfolding eq using a b c d pb by (simp add: wf_world_def)
qed

lemma wf_groupD:
  assumes "wf_world w" "(filt, grp) \<in> set (m_groups w)"
  shows "set grp = {e. matches w filt e}"
    and "\<exists>t. dtl_contains filt t \<and> t < length (m_metabuffers w)"
    and "length filt \<le> length (m_metabuffers w)"
  using assms filter_has_bit[of w filt grp]
  by (auto simp: wf_world_def groups_exact_def wf_filters_def)

lemma groups_exact_sameI:
  assumes "wf_world w" "m_groups w' = m_groups w"
    and "\<And>filt grp e. (filt, grp) \<in> set (m_groups w) \<Longrightarrow> matches w' filt e = matches w filt e"
  shows "groups_exact w'"
  unfolding groups_exact_def assms(2)
  using assms(3) wf_groupD(1)[OF assms(1)] by fastforce

lemma destroy_wf:
  assumes "wf_world w" "destroy w eid = Inr w''"
  shows "wf_world w''"
proof -
  let ?idx = "unat (index_from_entity eid)"
  from assms(2) obtain w' where o: "orphan w eid = Inr w'"
    and lt: "version_from_entity eid < 0xFFFFFFFF"
    and eq: "w'' = w'\<lparr> m_versions := (m_versions w')[?idx := version_from_entity eid + 1],
                          m_free_list := index_from_entity eid # m_free_list w' \<rparr>"
    by (auto simp: destroy_def Let_def split: sum.splits if_splits)
  have v: "valid w eid" using o by (cases "valid w eid") (simp_all add: orphan_invalid)
  from orphan_wf[OF assms(1) o] have wf': "wf_world w'"
    and nb: "\<And>t. \<not> presence_bit w' t ?idx" and vs: "m_versions w' = m_versions w"
    by simp_all
  have in_range: "?idx < length (m_versions w')" using v vs by (simp add: valid_iff)
  have pb: "presence_bit w'' = presence_bit w'" unfolding eq by simp
  have m: "matches w'' filt e = matches w' filt e" if "(filt, grp) \<in> set (m_groups w')" for filt grp e
  proof (cases "unat (index_from_entity e) = ?idx")
    case True
    from wf_groupD(2)[OF wf' that] obtain t0 where "dtl_contains filt t0" by blast
    then show ?thesis using True nb by (auto simp: matches_def pb)
  next
    case False
    then have "valid w'' e = valid w' e" by (simp add: eq valid_iff)
    then show ?thesis by (simp add: matches_def pb)
  qed
  have a: "wf_types w''" using wf' by (simp add: eq wf_world_def wf_types_def)
  have b: "wf_entities w''" using wf' in_range by (simp add: eq wf_world_def wf_entities_def)
  have c: "wf_filters w''" using wf' by (simp add: eq wf_world_def wf_filters_def)
  have d: "groups_exact w''"
    by (rule groups_exact_sameI[OF wf']) (simp add: eq, rule m)
  show ?thesis using a b c d by (simp add: wf_world_def)
qed

lemma remove_eq:
  assumes "has w T eid = Inr True" "map_of (m_type_positions w) T = Some tp"
  shows "remove w T eid =
    Inr (w\<lparr> m_metabuffers := (m_metabuffers w)
               [tp := (m_metabuffers w ! tp)[unat (index_from_entity eid) := False]],
             m_groups := map (\<lambda>(filt, grp).
                if dtl_contains filt tp then (filt, sparse_erase grp eid) else (filt, grp))
                (m_groups w) \<rparr>)"
proof -
  have "valid w eid" "tp < length (m_metabuffers w)"
    using assms by (auto simp: has_True_iff presence_bit_def)
  then show ?thesis using assms by (simp add: remove_def)
qed

lemma remove_Inr_has:
  "remove w T eid = Inr w' \<Longrightarrow> has w T eid = Inr True"
  by (auto simp: remove_def split: if_splits sum.splits bool.splits)

lemma presence_bit_reset:
  assumes "tp < length (m_metabuffers w)"
    and "m_metabuffers w' = (m_metabuffers w)[tp := (m_metabuffers w ! tp)[idx := False]]"
  shows "presence_bit w' t i \<longleftrightarrow> presence_bit w t i \<and> \<not> (t = tp \<and> i = idx)"
proof (cases "t = tp")
  case True
  then show ?thesis using assms
    by (cases "i = idx") (auto simp: presence_bit_def dtl_contains_def)
next
  case False
  then show ?thesis using assms by (simp add: presence_bit_def dtl_contains_def)
qed

lemma metabuffers_update_bound:
  assumes "\<forall>mb \<in> set mbs. length mb \<le> n" "length x \<le> n"
  shows "\<forall>mb \<in> set (mbs[tp := x]). length mb \<le> n"
  using assms set_update_subset_insert[of mbs tp x] by fastforce

lemma wf_filters_mapI:
  assumes "wf_filters w" "m_groups w' = map f (m_groups w)"
    and "\<And>fg. fst (f fg) = fst fg"
    and "length (m_metabuffers w) \<le> length (m_metabuffers w')"
  shows "wf_filters w'"
proof -
  have "length (fst fg') \<le> length (m_metabuffers w') \<and> (\<exists>t. dtl_contains (fst fg') t)"
    if "fg' \<in> set (m_groups w')" for fg'
  proof -
    from that obtain fg where fg: "fg \<in> set (m_groups w)" "fg' = f fg"
      using assms(2) by auto
    have "length (fst fg) \<le> length (m_metabuffers w) \<and> (\<exists>t. dtl_contains (fst fg) t)"
      using assms(1) fg(1) by (auto simp: wf_filters_def case_prod_beta)
    then show ?thesis using fg(2) assms(3,4) by auto
  qed
  then show ?thesis by (fastforce simp: wf_filters_def)
qed

lemma remove_wf:
  assumes "wf_world w" "remove w T eid = Inr w'"
  shows "wf_world w'"
proof -
  let ?idx = "unat (index_from_entity eid)"
  have h: "has w T eid = Inr True" using assms(2) by (rule remove_Inr_has)
  then obtain tp where v: "valid w eid" and tp: "map_of (m_type_positions w) T = Some tp"
    and bit: "presence_bit w tp ?idx"
    by (auto simp: has_True_iff)
  let ?f = "\<lambda>(filt, grp).
                if dtl_contains filt tp then (filt, sparse_erase grp eid) else (filt, grp)"
  have eq: "w' = w\<lparr> m_metabuffers := (m_metabuffers w)
               [tp := (m_metabuffers w ! tp)[?idx := False]],
             m_groups := map ?f (m_groups w) \<rparr>"
    using remove_eq[OF h tp] assms(2) by simp
  have lt: "tp < length (m_metabuffers w)" using bit by (simp add: presence_bit_def)
  have va: "valid w' = valid w" by (rule valid_eqI) (simp add: eq)
  have pb: "presence_bit w' t i \<longleftrightarrow> presence_bit w t i \<and> \<not> (t = tp \<and> i = ?idx)" for t i
    by (rule presence_bit_reset[OF lt]) (simp add: eq)
  have a: "wf_types w'" using assms(1) by (simp add: eq wf_world_def wf_types_def)
  have "\<forall>mb \<in> set ((m_metabuffers w)[tp := (m_metabuffers w ! tp)[?idx := False]]).
      length mb \<le> length (m_versions w)"
    by (rule metabuffers_update_bound)
      (use assms(1) lt in \<open>simp_all add: wf_world_def wf_entities_def\<close>)
  then have b: "wf_entities w'" using assms(1)
    by (simp add: eq wf_world_def wf_entities_def)
  have c: "wf_filters w'"
    by (rule wf_filters_mapI[where w = w and f = ?f])
      (use assms(1) in \<open>auto simp: eq wf_world_def\<close>)
  have d: "groups_exact w'"
  proof (rule groups_exact_mapI[where gs = "m_groups w" and f = ?f])
    show "m_groups w' = map ?f (m_groups w)" by (simp add: eq)
  next
    fix fg assume mem: "fg \<in> set (m_groups w)"
    obtain filt grp where fg: "fg = (filt, grp)" by (cases fg)
    have g: "set grp = {e. matches w filt e}"
      using wf_groupD(1)[OF assms(1)] mem fg by simp
    show "set (snd (?f fg)) = {e. matches w' (fst (?f fg)) e}"
    proof (cases "dtl_contains filt tp")
      case True
      have "set grp - {eid} = {e. matches w' filt e}"
        using g matches_clear(1)[where C = "\<lambda>t. t = tp", OF va v pb True] by auto
      then show ?thesis using True by (simp add: fg)
    next
      case False
      have "set grp = {e. matches w' filt e}"
        using g matches_clear(2)[where C = "\<lambda>t. t = tp", OF va v pb] False by auto
      then show ?thesis using False by (simp add: fg)
    qed
  qed
  show ?thesis using a b c d by (simp add: wf_world_def)
qed

lemma length_set_presence [simp]:
  "length (set_presence mb idx) = max (length mb) (idx + 1)"
  by (simp add: set_presence_def bitset_resize_def Let_def)

lemma dtl_contains_set_presence [simp]:
  "dtl_contains (set_presence mb idx) i \<longleftrightarrow> i = idx \<or> dtl_contains mb i"
  by (auto simp: set_presence_def bitset_resize_def dtl_contains_def Let_def nth_list_update nth_append)

lemma assign_group_in_range:
  assumes "length filt \<le> length mbs"
  shows "assign_group mbs tp eid (filt, grp) =
     Inr (filt, if \<not> sparse_contains grp eid \<and> dtl_contains filt tp
                  \<and> (\<forall>i. dtl_contains filt i \<longrightarrow> dtl_contains (mbs ! i) (unat (index_from_entity eid)))
                then sparse_insert grp eid else grp)"
proof -
  have "\<forall>i \<in> set (set_bits filt). i < length mbs"
    using assms by (auto simp: dtl_contains_def)
  then show ?thesis
    by (simp add: assign_group_def has_all_in_range)
qed

lemma assign_groups_in_range:
  assumes "\<forall>fg \<in> set gs. length (fst fg) \<le> length mbs"
  shows "assign_groups mbs tp eid gs =
     Inr (map (\<lambda>(filt, grp). (filt, if \<not> sparse_contains grp eid \<and> dtl_contains filt tp
                  \<and> (\<forall>i. dtl_contains filt i \<longrightarrow> dtl_contains (mbs ! i) (unat (index_from_entity eid)))
                then sparse_insert grp eid else grp)) gs)"
  using assms
proof (induction gs)
  case Nil
  then show ?case by simp
next
  case (Cons fg gs)
  obtain filt grp where fg: "fg = (filt, grp)" by (cases fg)
  have "length filt \<le> length mbs" using Cons.prems fg by simp
  from assign_group_in_range[OF this] Cons show ?case
    by (simp add: fg)
qed

lemma has_False_bit:
  assumes "valid w eid" "has w T eid = Inr False" "map_of (m_type_positions w) T = Some tp"
  shows "\<not> presence_bit w tp (unat (index_from_entity eid))"
  using assms by (auto simp: has_def contains_type_def presence_bit_def split: if_splits)

lemma assign_Inr:
  assumes "assign w T dflt eid x = Inr w'"
  shows "\<exists>tp w1 gs. valid w eid \<and> has w T eid = Inr False \<and> accommodate w T = Inr (tp, w1)
     \<and> tp < length (m_metabuffers w1) \<and> tp < length (m_buffers w1)
     \<and> assign_groups ((m_metabuffers w1)
           [tp := set_presence (m_metabuffers w1 ! tp) (unat (index_from_entity eid))])
           tp eid (m_groups w1) = Inr gs
     \<and> w' = w1\<lparr> m_metabuffers := (m_metabuffers w1)
           [tp := set_presence (m_metabuffers w1 ! tp) (unat (index_from_entity eid))],
           m_groups := gs,
           m_buffers := (m_buffers w1)
              [tp := store_component (m_buffers w1 ! tp) (unat (index_from_entity eid)) dflt x] \<rparr>"
  using assms
  by (auto simp: assign_def Let_def split: if_splits sum.splits bool.splits prod.splits)

lemma presence_bit_set:
  assumes "tp < length (m_metabuffers w)"
    and "m_metabuffers w' = (m_metabuffers w)[tp := set_presence (m_metabuffers w ! tp) idx]"
  shows "presence_bit w' t i \<longleftrightarrow> presence_bit w t i \<or> (t = tp \<and> i = idx)"
proof (cases "t = tp")
  case True
  then show ?thesis using assms by (auto simp: presence_bit_def)
next
  case False
  then show ?thesis using assms by (simp add: presence_bit_def)
qed

lemma assign_wf:
  assumes "wf_world w" "assign w T dflt eid x = Inr w'"
  shows "wf_world w'"
proof -
  let ?idx = "unat (index_from_entity eid)"
  from assign_Inr[OF assms(2)] obtain tp w1 gs where
    v: "valid w eid" and h: "has w T eid = Inr False" and acc: "accommodate w T = Inr (tp, w1)"
    and lt: "tp < length (m_metabuffers w1)"
    and gs: "assign_groups ((m_metabuffers w1)[tp := set_presence (m_metabuffers w1 ! tp) ?idx])
           tp eid (m_groups w1) = Inr gs"
    and eq: "w' = w1\<lparr> m_metabuffers := (m_metabuffers w1)
           [tp := set_presence (m_metabuffers w1 ! tp) ?idx],
           m_groups := gs,
           m_buffers := (m_buffers w1)[tp := store_component (m_buffers w1 ! tp) ?idx dflt x] \<rparr>"
    by blast
  let ?mbs = "(m_metabuffers w1)[tp := set_presence (m_metabuffers w1 ! tp) ?idx]"
  let ?f = "\<lambda>(filt, grp). (filt, if \<not> sparse_contains grp eid \<and> dtl_contains filt tp
                  \<and> (\<forall>i. dtl_contains filt i \<longrightarrow> dtl_contains (?mbs ! i) ?idx)
                then sparse_insert grp eid else grp)"
  from accommodate_wf[OF assms(1) acc] have wf1: "wf_world w1"
    and tp: "map_of (m_type_positions w1) T = Some tp"
    and pb1: "presence_bit w1 = presence_bit w" and va1: "valid w1 = valid w"
    and new: "map_of (m_type_positions w) T = None \<longrightarrow> (\<forall>i. \<not> presence_bit w tp i)"
    by simp_all
  have v1: "valid w1 eid" using v va1 by simp
  have nobit: "\<not> presence_bit w1 tp ?idx"
  proof (cases "map_of (m_type_positions w) T")
    case None
    then show ?thesis using new pb1 by simp
  next
    case (Some q)
    then have "q = tp" using acc by (simp add: accommodate_old)
    then show ?thesis using has_False_bit[OF v h] Some pb1 by simp
  qed
  have flen: "\<forall>fg \<in> set (m_groups w1). length (fst fg) \<le> length ?mbs"
    using wf1 by (auto simp: wf_world_def wf_filters_def case_prod_beta)
  have gs_eq: "gs = map ?f (m_groups w1)"
    using assign_groups_in_range[OF flen, of tp eid] gs by simp
  have va: "valid w' = valid w1" by (rule valid_eqI) (simp add: eq)
  have pb: "presence_bit w' t i \<longleftrightarrow> presence_bit w1 t i \<or> (t = tp \<and> i = ?idx)" for t i
    by (rule presence_bit_set[OF lt]) (simp add: eq)
  have other: "matches w' filt e = matches w1 filt e" if "e \<noteq> eid" for filt e
  proof (cases "valid w1 e")
    case True
    then have "unat (index_from_entity e) \<noteq> ?idx"
      using valid_same_index[OF True v1] that by (auto simp: word_unat_eq_iff)
    then show ?thesis by (simp add: matches_def va pb)
  next
    case False
    then show ?thesis by (simp add: matches_def va)
  qed
  have a: "wf_types w'" using wf1 by (simp add: eq wf_world_def wf_types_def)
  have in_range: "?idx < length (m_versions w1)" using v1 by (simp add: valid_iff)
  have "\<forall>mb \<in> set ?mbs. length mb \<le> length (m_versions w1)"
    by (rule metabuffers_update_bound)
      (use wf1 lt in_range in \<open>simp_all add: wf_world_def wf_entities_def\<close>)
  then have b: "wf_entities w'" using wf1
    by (simp add: eq wf_world_def wf_entities_def)
  have c: "wf_filters w'"
    by (rule wf_filters_mapI[where w = w1 and f = ?f])
      (use wf1 in \<open>auto simp: eq gs_eq wf_world_def\<close>)
  have d: "groups_exact w'"
  proof (rule groups_exact_mapI[where gs = "m_groups w1" and f = ?f])
    show "m_groups w' = map ?f (m_groups w1)" by (simp add: eq gs_eq)
  next
    fix fg assume mem: "fg \<in> set (m_groups w1)"
    obtain filt grp where fg: "fg = (filt, grp)" by (cases fg)
    have m: "(filt, grp) \<in> set (m_groups w1)" using mem fg by simp
    have g: "set grp = {e. matches w1 filt e}" using wf_groupD(1)[OF wf1 m] .
    have fl: "length filt \<le> length (m_metabuffers w1)" using wf_groupD(3)[OF wf1 m] .
    show "set (snd (?f fg)) = {e. matches w' (fst (?f fg)) e}"
    proof (cases "dtl_contains filt tp")
      case True
      have notin: "\<not> sparse_contains grp eid"
        using g True nobit by (auto simp: sparse_contains_def matches_def)
      have bits: "(\<forall>i. dtl_contains filt i \<longrightarrow> dtl_contains (?mbs ! i) ?idx) \<longleftrightarrow> matches w' filt eid"
      proof -
        have "dtl_contains (?mbs ! i) ?idx \<longleftrightarrow> presence_bit w' i ?idx" if "dtl_contains filt i" for i
        proof -
          have "i < length ?mbs" using that fl by (simp add: dtl_contains_def)
          then show ?thesis by (simp add: presence_bit_def eq)
        qed
        then show ?thesis using v1 by (auto simp: matches_def va)
      qed
      have nm: "\<not> matches w1 filt eid" using True nobit by (auto simp: matches_def)
      define now where "now = matches w' filt eid"
      have "matches w' filt e \<longleftrightarrow> (if e = eid then now else e \<in> set grp)" for e
      proof (cases "e = eid")
        case True
        then show ?thesis by (simp add: now_def)
      next
        case False
        then show ?thesis using other[OF False] g by simp
      qed
      moreover have "eid \<notin> set grp" using nm g by simp
      ultimately have "{e. matches w' filt e} = set grp \<union> (if now then {eid} else {})"
        by (auto split: if_splits)
      then show ?thesis using True notin bits by (simp add: fg now_def)
    next
      case False
      have "matches w' filt e = matches w1 filt e" for e
        using False by (auto simp: matches_def va pb)
      then show ?thesis using False g by (simp add: fg)
    qed
  qed
  show ?thesis using a b c d by (simp add: wf_world_def)
qed

lemma unat_of_nat_index: "k < 4294967296 \<Longrightarrow> unat (of_nat k :: 32 word) = k"
  by (simp add: unat_of_nat)

lemma valid_iff_slot:
  assumes "length (m_versions w) \<le> 4294967295"
  shows "valid w e \<longleftrightarrow> (\<exists>j < length (m_versions w). e = make_entity (m_versions w ! j) (of_nat j))"
proof
  assume v: "valid w e"
  let ?j = "unat (index_from_entity e)"
  have "?j < length (m_versions w)" "m_versions w ! ?j = version_from_entity e"
    using v by (simp_all add: valid_iff)
  moreover have "e = make_entity (version_from_entity e) (of_nat ?j)"
    by (simp add: make_entity_split)
  ultimately show "\<exists>j < length (m_versions w). e = make_entity (m_versions w ! j) (of_nat j)"
    by metis
next
  assume "\<exists>j < length (m_versions w). e = make_entity (m_versions w ! j) (of_nat j)"
  then obtain j where j: "j < length (m_versions w)" "e = make_entity (m_versions w ! j) (of_nat j)"
    by blast
  then have "unat (of_nat j :: 32 word) = j" using assms by (simp add: unat_of_nat_index)
  then show "valid w e" using j by (simp add: valid_iff)
qed

lemma create_Inr:
  assumes "create w Ts = Inr (e, w')"
  shows "\<exists>wb. assign_each wb Ts e = Inr w' \<and>
     ((\<exists>idx rest. m_free_list w = idx # rest \<and> unat idx < length (m_versions w)
          \<and> e = make_entity (m_versions w ! unat idx) idx \<and> wb = w\<lparr> m_free_list := rest \<rparr>)
      \<or> (m_free_list w = [] \<and> length (m_versions w) < 4294967295
          \<and> e = of_nat (length (m_versions w)) \<and> wb = w\<lparr> m_versions := m_versions w @ [0] \<rparr>))"
  using assms
  by (auto simp: create_def Let_def split: if_splits list.splits sum.splits)

lemma wf_filters_sameI:
  assumes "wf_filters w" "m_groups w' = m_groups w"
    and "length (m_metabuffers w) \<le> length (m_metabuffers w')"
  shows "wf_filters w'"
  using assms by (fastforce simp: wf_filters_def)

lemma recycle_wf:
  assumes "wf_world w" "m_free_list w = idx # rest"
  shows "wf_world (w\<lparr> m_free_list := rest \<rparr>)"
proof -
  have "groups_exact (w\<lparr> m_free_list := rest \<rparr>)"
    by (rule groups_exact_sameI[OF assms(1)]) simp_all
  moreover have "wf_filters (w\<lparr> m_free_list := rest \<rparr>)"
    by (rule wf_filters_sameI[of w]) (use assms(1) in \<open>simp_all add: wf_world_def\<close>)
  ultimately show ?thesis using assms
    by (simp add: wf_world_def wf_types_def wf_entities_def)
qed

lemma fresh_wf:
  assumes "wf_world w" "length (m_versions w) < 4294967295"
  shows "wf_world (w\<lparr> m_versions := m_versions w @ [0] \<rparr>)"
proof -
  let ?w' = "w\<lparr> m_versions := m_versions w @ [0] \<rparr>"
  have m: "matches ?w' filt e = matches w filt e" if "(filt, grp) \<in> set (m_groups w)" for filt grp e
  proof (cases "unat (index_from_entity e) < length (m_versions w)")
    case True
    then have "valid ?w' e = valid w e" by (simp add: valid_iff nth_append)
    then show ?thesis by (simp add: matches_def)
  next
    case False
    from wf_groupD(2)[OF assms(1) that] obtain t0 where t0: "dtl_contains filt t0"
      "t0 < length (m_metabuffers w)" by blast
    then have "length (m_metabuffers w ! t0) \<le> length (m_versions w)"
      using assms(1) by (simp add: wf_world_def wf_entities_def)
    then have "\<not> presence_bit w t0 (unat (index_from_entity e))"
      using False by (simp add: presence_bit_def dtl_contains_def)
    moreover have "\<not> valid w e" using False by (simp add: valid_iff)
    ultimately show ?thesis using t0(1) by (auto simp: matches_def)
  qed
  have "groups_exact ?w'"
    by (rule groups_exact_sameI[OF assms(1)]) (simp, rule m)
  moreover have "wf_filters ?w'"
    by (rule wf_filters_sameI[of w]) (use assms(1) in \<open>simp_all add: wf_world_def\<close>)
  moreover have "wf_entities ?w'"
    using assms by (auto simp: wf_world_def wf_entities_def)
  ultimately show ?thesis using assms(1)
    by (simp add: wf_world_def wf_types_def)
qed

lemma assign_each_wf:
  "wf_world w \<Longrightarrow> assign_each w Ts e = Inr w' \<Longrightarrow> wf_world w'"
proof (induction Ts arbitrary: w)
  case Nil
  then show ?case by simp
next
  case (Cons Td Ts)
  obtain T dflt where Td: "Td = (T, dflt)" by (cases Td)
  from Cons.prems(2) obtain w1 where 1: "assign w T dflt e dflt = Inr w1"
    and 2: "assign_each w1 Ts e = Inr w'"
    by (auto simp: Td split: sum.splits)
  from assign_wf[OF Cons.prems(1) 1] Cons.IH 2 show ?case by blast
qed

lemma create_wf:
  assumes "wf_world w" "create w Ts = Inr (e, w')"
  shows "wf_world w'"
proof -
  from create_Inr[OF assms(2)] obtain wb where wb: "assign_each wb Ts e = Inr w'"
    and c: "(\<exists>idx rest. m_free_list w = idx # rest \<and> wb = w\<lparr> m_free_list := rest \<rparr>)
      \<or> (length (m_versions w) < 4294967295 \<and> wb = w\<lparr> m_versions := m_versions w @ [0] \<rparr>)"
    by blast
  from c have "wf_world wb"
    using recycle_wf[OF assms(1)] fresh_wf[OF assms(1)] by auto
  then show ?thesis using wb by (rule assign_each_wf)
qed

lemma buffers_only_wf:
  assumes "wf_world w" "length b = length (m_buffers w)"
  shows "wf_world (w\<lparr> m_buffers := b \<rparr>)"
proof -
  have "groups_exact (w\<lparr> m_buffers := b \<rparr>)"
    by (rule groups_exact_sameI[OF assms(1)]) simp_all
  moreover have "wf_filters (w\<lparr> m_buffers := b \<rparr>)"
    by (rule wf_filters_sameI[of w]) (use assms(1) in \<open>simp_all add: wf_world_def\<close>)
  ultimately show ?thesis using assms
    by (simp add: wf_world_def wf_types_def wf_entities_def)
qed

lemma assign_or_replace_wf:
  assumes "wf_world w" "assign_or_replace w T dflt eid x = Inr w'"
  shows "wf_world w'"
  using assms assign_wf[OF assms(1)] buffers_only_wf[OF assms(1)]
  by (auto simp: assign_or_replace_def Let_def
      split: if_splits sum.splits bool.splits option.splits)

lemma reserve_wf:
  assumes "wf_world w" "reserve w T = Inr w'"
  shows "wf_world w'"
  using assms accommodate_wf[OF assms(1)]
  by (auto simp: reserve_def split: sum.splits prod.splits if_splits)

lemma fold_max_ge: "q \<in> set (p # ps) \<Longrightarrow> q \<le> fold max ps (p :: nat)"
proof -
  have "fold max ps p = Max (set (p # ps))" by (rule Max.set_eq_fold[symmetric])
  then show "q \<in> set (p # ps) \<Longrightarrow> q \<le> fold max ps p" by simp
qed

lemma fold_set_bits:
  "length (fold (\<lambda>tp f. f[tp := True]) ps init) = length init
   \<and> (\<forall>t < length init. fold (\<lambda>tp f. f[tp := True]) ps init ! t \<longleftrightarrow> init ! t \<or> t \<in> set ps)"
proof (induction ps arbitrary: init)
  case Nil
  then show ?case by simp
next
  case (Cons p ps)
  show ?case
  proof (cases "p < length init")
    case True
    then show ?thesis using Cons[of "init[p := True]"]
      by (auto simp: nth_list_update)
  next
    case False
    then have "init[p := True] = init" by (intro list_update_beyond) simp
    then show ?thesis using Cons[of init] False by auto
  qed
qed

lemma length_make_filter [simp]: "length (make_filter ps n) = n + 1"
  by (simp add: make_filter_def fold_set_bits)

lemma dtl_contains_make_filter:
  assumes "\<forall>q \<in> set ps. q \<le> n"
  shows "dtl_contains (make_filter ps n) t \<longleftrightarrow> t \<in> set ps"
proof (cases "t < n + 1")
  case True
  have "\<not> replicate (n + 1) False ! t" using True by (simp only: nth_replicate) simp
  then show ?thesis
    using fold_set_bits[of ps "replicate (n + 1) False"] True
    by (simp add: dtl_contains_def make_filter_def del: replicate.simps replicate_Suc)
next
  case False
  then have "t \<notin> set ps" using assms by auto
  then show ?thesis using False by (simp add: dtl_contains_def)
qed

lemma set_group_scan:
  assumes "k + length vs \<le> 4294967296"
  shows "set (group_scan mbs ps (of_nat k) vs grp) =
     set grp \<union> {make_entity (vs ! j) (of_nat (k + j)) | j.
                   j < length vs \<and> (\<forall>p \<in> set ps. dtl_contains (mbs ! p) (k + j))}"
  using assms
proof (induction vs arbitrary: k grp)
  case Nil
  then show ?case by simp
next
  case (Cons v vs)
  have k: "unat (of_nat k :: 32 word) = k" using Cons.prems by (simp add: unat_of_nat_index)
  have suc: "(of_nat k :: 32 word) + 1 = of_nat (Suc k)" by simp
  let ?P = "\<lambda>j. \<forall>p \<in> set ps. dtl_contains (mbs ! p) j"
  let ?grp' = "if ?P k then sparse_insert grp (make_entity v (of_nat k)) else grp"
  have step: "group_scan mbs ps (of_nat k) (v # vs) grp = group_scan mbs ps (of_nat (Suc k)) vs ?grp'"
    by (simp add: Let_def k suc list_all_iff del: of_nat_Suc)
  have ih: "set (group_scan mbs ps (of_nat (Suc k)) vs ?grp') =
     set ?grp' \<union> {make_entity (vs ! j) (of_nat (Suc k + j)) | j. j < length vs \<and> ?P (Suc k + j)}"
    using Cons.prems by (intro Cons.IH) simp
  have split: "{make_entity ((v # vs) ! j) (of_nat (k + j)) | j. j < length (v # vs) \<and> ?P (k + j)}
      = (if ?P k then {make_entity v (of_nat k)} else {})
        \<union> {make_entity (vs ! j) (of_nat (Suc k + j)) | j. j < length vs \<and> ?P (Suc k + j)}"
    (is "?L = ?R")
  proof (intro set_eqI iffI)
    fix e assume "e \<in> ?L"
    then obtain j where j: "j < length (v # vs)" "?P (k + j)" "e = make_entity ((v # vs) ! j) (of_nat (k + j))"
      by blast
    show "e \<in> ?R"
    proof (cases j)
      case 0
      then show ?thesis using j by simp
    next
      case (Suc j')
      then have "j' < length vs \<and> ?P (Suc k + j') \<and> e = make_entity (vs ! j') (of_nat (Suc k + j'))"
        using j by simp
      then show ?thesis by blast
    qed
  next
    fix e assume "e \<in> ?R"
    then consider "?P k" "e = make_entity v (of_nat k)"
      | j' where "j' < length vs" "?P (Suc k + j')" "e = make_entity (vs ! j') (of_nat (Suc k + j'))"
      by (auto split: if_splits)
    then show "e \<in> ?L"
    proof cases
      case 1
      then have "0 < length (v # vs) \<and> ?P (k + 0) \<and> e = make_entity ((v # vs) ! 0) (of_nat (k + 0))"
        by simp
      then show ?thesis by blast
    next
      case 2
      then have "Suc j' < length (v # vs) \<and> ?P (k + Suc j')
          \<and> e = make_entity ((v # vs) ! Suc j') (of_nat (k + Suc j'))"
        by simp
      then show ?thesis by blast
    qed
  qed
  show ?case unfolding step ih split by auto
qed

lemma group_by_Inr:
  assumes "group_by w ps = Inr (filt, w')"
  shows "\<exists>p rest. ps = p # rest
     \<and> fold max rest p < length (m_type_positions w)
     \<and> fold max rest p < length (m_metabuffers w)
     \<and> fold max rest p < length (m_buffers w)
     \<and> filt = make_filter ps (fold max rest p)
     \<and> (if map_of (m_groups w) filt = None
         then w' = w\<lparr> m_groups := m_groups w
                  @ [(filt, group_scan (m_metabuffers w) ps 0 (m_versions w) [])] \<rparr>
         else w' = w)"
  using assms
  by (auto simp: group_by_def Let_def split: list.splits if_splits option.splits)

lemma group_by_wf:
  assumes "wf_world w" "group_by w ps = Inr (filt, w')"
  shows "wf_world w'"
proof (cases "map_of (m_groups w) filt = None")
  case False
  then show ?thesis using group_by_Inr[OF assms(2)] assms(1) by auto
next
  case True
  from group_by_Inr[OF assms(2)] True obtain p rest where ps: "ps = p # rest"
    and lt: "fold max rest p < length (m_metabuffers w)"
    and filt: "filt = make_filter ps (fold max rest p)"
    and eq: "w' = w\<lparr> m_groups := m_groups w
                  @ [(filt, group_scan (m_metabuffers w) ps 0 (m_versions w) [])] \<rparr>"
    by auto
  let ?n = "fold max rest p"
  have le: "\<forall>q \<in> set ps. q \<le> ?n" using fold_max_ge[of _ p rest] by (simp add: ps)
  have bits: "dtl_contains filt t \<longleftrightarrow> t \<in> set ps" for t
    unfolding filt by (rule dtl_contains_make_filter[OF le])
  have vlen: "length (m_versions w) \<le> 4294967295"
    using assms(1) by (simp add: wf_world_def wf_entities_def)
  have scan: "set (group_scan (m_metabuffers w) ps 0 (m_versions w) []) =
     {make_entity (m_versions w ! j) (of_nat j) | j.
        j < length (m_versions w) \<and> (\<forall>p \<in> set ps. dtl_contains (m_metabuffers w ! p) j)}"
    using set_group_scan[of 0 "m_versions w" "m_metabuffers w" ps "[]"] vlen by simp
  have new: "set (group_scan (m_metabuffers w) ps 0 (m_versions w) []) = {e. matches w filt e}"
  proof -
    have pres: "presence_bit w t i \<longleftrightarrow> dtl_contains (m_metabuffers w ! t) i" if "t \<in> set ps" for t i
      using le lt that by (auto simp: presence_bit_def)
    have "matches w filt e \<longleftrightarrow> (\<exists>j < length (m_versions w). e = make_entity (m_versions w ! j) (of_nat j)
        \<and> (\<forall>p \<in> set ps. dtl_contains (m_metabuffers w ! p) j))" for e
    proof
      assume m: "matches w filt e"
      then obtain j where j: "j < length (m_versions w)" "e = make_entity (m_versions w ! j) (of_nat j)"
        using valid_iff_slot[OF vlen] by (auto simp: matches_def)
      then have "unat (index_from_entity e) = j" using vlen by (simp add: unat_of_nat_index)
      then show "\<exists>j < length (m_versions w). e = make_entity (m_versions w ! j) (of_nat j)
        \<and> (\<forall>p \<in> set ps. dtl_contains (m_metabuffers w ! p) j)"
        using m j pres by (auto simp: matches_def bits)
    next
      assume "\<exists>j < length (m_versions w). e = make_entity (m_versions w ! j) (of_nat j)
        \<and> (\<forall>p \<in> set ps. dtl_contains (m_metabuffers w ! p) j)"
      then obtain j where j: "j < length (m_versions w)" "e = make_entity (m_versions w ! j) (of_nat j)"
        "\<forall>p \<in> set ps. dtl_contains (m_metabuffers w ! p) j"
        by blast
      then have "unat (index_from_entity e) = j" using vlen by (simp add: unat_of_nat_index)
      moreover have "valid w e" using valid_iff_slot[OF vlen] j by blast
      ultimately show "matches w filt e" using j pres by (auto simp: matches_def bits)
    qed
    then show ?thesis unfolding scan by blast
  qed
  have ma: "matches w' = matches w" by (simp add: eq)
  have a: "wf_types w'" using assms(1) by (simp add: eq wf_world_def wf_types_def)
  have b: "wf_entities w'" using assms(1) by (simp add: eq wf_world_def wf_entities_def)
  have "dtl_contains filt p" using bits by (simp add: ps)
  then have c: "wf_filters w'" using assms(1) lt
    by (auto simp: eq wf_world_def wf_filters_def filt)
  have "groups_exact w" using assms(1) by (simp add: wf_world_def)
  then have d: "groups_exact w'" using new
    by (auto simp: groups_exact_def eq)
  show ?thesis using a b c d by (simp add: wf_world_def)
qed

lemma accommodate_each_wf:
  "wf_world w \<Longrightarrow> accommodate_each w Ts = Inr (ps, w') \<Longrightarrow> wf_world w'"
proof (induction Ts arbitrary: w ps)
  case Nil
  then show ?case by simp
next
  case (Cons T Ts)
  from Cons.prems(2) obtain p w1 ps' where 1: "accommodate w T = Inr (p, w1)"
    and 2: "accommodate_each w1 Ts = Inr (ps', w')"
    by (auto split: sum.splits prod.splits)
  from accommodate_wf[OF Cons.prems(1) 1] have "wf_world w1" by simp
  then show ?case using Cons.IH 2 by blast
qed

lemma view_wf:
  assumes "wf_world w" "view w Ts = Inr (v, w')"
  shows "wf_world w'"
proof -
  from assms(2) obtain ps w1 where 1: "accommodate_each w Ts = Inr (ps, w1)"
    and 2: "group_by w1 ps = Inr (v, w')"
    by (auto simp: view_def split: if_splits sum.splits prod.splits)
  from accommodate_each_wf[OF assms(1) 1] have "wf_world w1" .
  then show ?thesis using 2 by (rule group_by_wf)
qed

lemma empty_world_wf: "wf_world empty_world"
  by (simp add: wf_world_def wf_types_def wf_entities_def wf_filters_def groups_exact_def
      empty_world_def)

lemma apply_op_wf:
  assumes "wf_world w" "apply_op w operation = Inr w'"
  shows "wf_world w'"
proof (cases operation)
  case (Create Ts)
  then obtain e where "create w Ts = Inr (e, w')"
    using assms(2) by (cases "create w Ts") auto
  then show ?thesis using assms(1) create_wf by blast
next
  case (Destroy eid)
  then show ?thesis using assms destroy_wf by simp
next
  case (Orphan eid)
  then show ?thesis using assms orphan_wf by simp blast
next
  case (Assign T dflt eid x)
  then show ?thesis using assms assign_wf by simp
next
  case (Assign_or_replace T dflt eid x)
  then show ?thesis using assms assign_or_replace_wf by simp
next
  case (Remove T eid)
  then show ?thesis using assms remove_wf by simp
next
  case (View Ts)
  then obtain v where "view w Ts = Inr (v, w')"
    using assms(2) by (cases "view w Ts") auto
  then show ?thesis using assms(1) view_wf by blast
next
  case (Reserve T)
  then show ?thesis using assms reserve_wf by simp
qed

lemma reachable_wf: "reachable w \<Longrightarrow> wf_world w"
  by (induction rule: reachable.induct) (auto intro: empty_world_wf apply_op_wf)

section \<open>Concrete scenarios\<close>

lemmas world_eval = view_def accommodate_def group_by_def make_filter_def empty_world_def
  create_def destroy_def orphan_def assign_def has_def valid_def contains_type_def remove_def
  assign_group_def dtl_contains_def set_bits_def sparse_contains_def sparse_insert_def
  sparse_erase_def bitset_resize_def set_presence_def store_component_def view_size_def
  view_entities_def view_contains_def presence_bit_def index_from_entity_def version_from_entity_def make_entity_def Let_def

text \<open>
  C8. An entity is created at index 0, destroyed (the version of the slot becomes 1),
  created again (index 0, version 1) and destroyed again (version 2). Then \<open>valid\<close> is
  false for the identifiers of index 0 with versions 0 and 1 and true for the one with
  version 2, while index 0 is on the free list.
\<close>

theorem valid_after_two_recyclings:
  "\<exists>w1 w2 w3 w4.
      create (empty_world :: nat world) [] = Inr (make_entity 0 0, w1)
    \<and> destroy w1 (make_entity 0 0) = Inr w2
    \<and> m_versions w2 = [1]
    \<and> create w2 [] = Inr (make_entity 1 0, w3)
    \<and> destroy w3 (make_entity 1 0) = Inr w4
    \<and> m_versions w4 = [2]
    \<and> m_free_list w4 = [0]
    \<and> \<not> valid w4 (make_entity 0 0)
    \<and> \<not> valid w4 (make_entity 1 0)
    \<and> valid w4 (make_entity 2 0)"
  by (simp add: world_eval)

theorem valid_after_two_recyclings_witness:
  "\<exists>w :: nat world. m_free_list w = [0] \<and> valid w (make_entity 2 0)"
  using valid_after_two_recyclings by blast

text \<open>
  C10. There is a reachable world with a valid entity \<open>e\<close> and a cached group for the
  type \<open>T\<close> such that, after \<open>destroy e\<close>, the identifier \<open>e'\<close> of the same index and the
  next version has its index on the free list and yet is valid and does not own \<open>T\<close>;
  \<open>assign\<close> of \<open>T\<close> to \<open>e'\<close> succeeds, sets the presence bit and puts \<open>e'\<close> into the
  group; and the next \<open>create\<close> returns \<open>e'\<close>, which owns \<open>T\<close> and is in the group.
\<close>

theorem assign_on_freed_slot:
  "\<exists>(w0 :: nat world) e w1 e' w2 w3.
      reachable w0 \<and> valid w0 e
    \<and> map_of (m_type_positions w0) 0 = Some 0
    \<and> view_entities w0 [True] = Some []
    \<and> destroy w0 e = Inr w1
    \<and> e' = make_entity (version_from_entity e + 1) (index_from_entity e)
    \<and> index_from_entity e' \<in> set (m_free_list w1)
    \<and> valid w1 e'
    \<and> has w1 0 e' = Inr False
    \<and> assign w1 0 0 e' 7 = Inr w2
    \<and> has w2 0 e' = Inr True
    \<and> presence_bit w2 0 (unat (index_from_entity e'))
    \<and> view_contains w2 [True] e' = Some True
    \<and> index_from_entity e' \<in> set (m_free_list w2)
    \<and> create w2 [] = Inr (e', w3)
    \<and> has w3 0 e' = Inr True
    \<and> view_contains w3 [True] e' = Some True"
proof -
  define u1 :: "nat world" where
    "u1 = \<lparr> m_free_list = [], m_versions = [], m_type_positions = [(0, 0)],
             m_metabuffers = [[]], m_buffers = [[]], m_groups = [([True], [])] \<rparr>"
  define u2 where "u2 = u1\<lparr> m_versions := [0] \<rparr>"
  define u3 where "u3 = u2\<lparr> m_versions := [1], m_free_list := [0] \<rparr>"
  define u4 where "u4 = u3\<lparr> m_metabuffers := [[True]], m_buffers := [[7]],
                             m_groups := [([True], [make_entity 1 0])] \<rparr>"
  define u5 where "u5 = u4\<lparr> m_free_list := [] \<rparr>"
  note defs = u1_def u2_def u3_def u4_def u5_def
  have "apply_op empty_world (View [0]) = Inr u1"
    by (simp add: world_eval defs)
  then have r1: "reachable u1"
    using reachable_empty reachable_step by blast
  have "apply_op u1 (Create []) = Inr u2"
    by (simp add: world_eval defs)
  then have r2: "reachable u2"
    using r1 reachable_step by blast
  have a: "valid u2 (make_entity 0 0) \<and> map_of (m_type_positions u2) 0 = Some 0
      \<and> view_entities u2 [True] = Some []"
    by (simp add: world_eval defs)
  have b: "destroy u2 (make_entity 0 0) = Inr u3"
    by (simp add: world_eval defs)
  have c: "index_from_entity (make_entity 1 0) \<in> set (m_free_list u3)
      \<and> valid u3 (make_entity 1 0) \<and> has u3 0 (make_entity 1 0) = Inr False"
    by (simp add: world_eval defs)
  have d: "assign u3 0 0 (make_entity 1 0) 7 = Inr u4"
    by (simp add: world_eval defs)
  have e: "has u4 0 (make_entity 1 0) = Inr True
      \<and> presence_bit u4 0 (unat (index_from_entity (make_entity 1 0)))
      \<and> view_contains u4 [True] (make_entity 1 0) = Some True
      \<and> index_from_entity (make_entity 1 0) \<in> set (m_free_list u4)"
    by (simp add: world_eval defs)
  have f: "create u4 [] = Inr (make_entity 1 0, u5)"
    by (simp add: world_eval defs)
  have g: "has u5 0 (make_entity 1 0) = Inr True
      \<and> view_contains u5 [True] (make_entity 1 0) = Some True"
    by (simp add: world_eval defs)
  have h: "make_entity 1 0
      = make_entity (version_from_entity (make_entity 0 0) + 1)
          (index_from_entity (make_entity 0 0))"
    by simp
  show ?thesis
    using r2 a b c d e f g h by metis
qed

theorem assign_on_freed_slot_witness:
  "\<exists>(w :: nat world) e. index_from_entity e \<in> set (m_free_list w) \<and> has w 0 e = Inr True"
  using assign_on_freed_slot by blast

section \<open>Example worlds are reachable\<close>

lemma run_reachable: "reachable w \<Longrightarrow> run w ops = Inr w' \<Longrightarrow> reachable w'"
proof (induction ops arbitrary: w)
  case Nil
  then show ?case by simp
next
  case (Cons operation ops)
  from Cons.prems(2) obtain w1 where 1: "apply_op w operation = Inr w1" and 2: "run w1 ops = Inr w'"
    by (auto split: sum.splits)
  from Cons.prems(1) 1 have "reachable w1" by (rule reachable_step)
  then show ?case using 2 by (rule Cons.IH)
qed

lemma example_world_run: "run empty_world example_ops = Inr example_world"
  by (simp add: example_ops_def example_world_def world_eval)

lemma example_world_reachable: "reachable example_world"
  using reachable_empty example_world_run by (rule run_reachable)

lemma recycled_world_reachable:
  "n \<le> 4294967295 \<Longrightarrow> reachable (recycled_world (of_nat n))"
proof (induction n)
  case 0
  have "apply_op (empty_world :: nat world) (Create []) = Inr (recycled_world 0)"
    by (simp add: world_eval recycled_world_def)
  then show ?case using reachable_empty reachable_step by fastforce
next
  case (Suc n)
  let ?e = "make_entity (of_nat n) 0"
  have r: "reachable (recycled_world (of_nat n))" using Suc by simp
  have "unat (of_nat n :: 32 word) = n" using Suc.prems by (simp add: unat_of_nat_index)
  then have lt: "(of_nat n :: 32 word) < 0xFFFFFFFF"
    using Suc.prems by (simp add: word_less_nat_alt)
  have v: "valid (recycled_world (of_nat n)) ?e"
    by (simp add: valid_iff recycled_world_def)
  have "run (recycled_world (of_nat n)) [Destroy ?e, Create []] = Inr (recycled_world (of_nat (Suc n)))"
    using v lt by (simp add: destroy_eq create_def recycled_world_def Let_def)
  with r show ?case by (rule run_reachable)
qed

lemma worn_world_reachable: "reachable worn_world"
proof -
  have "reachable (recycled_world (of_nat 4294967295))"
    by (rule recycled_world_reachable) simp
  moreover have "apply_op (recycled_world (of_nat 4294967295)) (Create []) = Inr worn_world"
    by (simp add: create_def recycled_world_def worn_world_def Let_def)
  ultimately show ?thesis by (rule reachable_step)
qed

section \<open>Claims about single operations\<close>

text \<open>
  C1. In every reachable world, every cached group holds exactly the entities that are
  valid and whose presence bit is set for every type position of the filter of the
  group. Reachable worlds cover every order of the operations, so the group may have
  been created before or after the entities received their components.
\<close>

theorem cached_group_exact:
  assumes "reachable w" "(filt, grp) \<in> set (m_groups w)"
  shows "set grp = {eid. valid w eid
      \<and> (\<forall>t. dtl_contains filt t \<longrightarrow> presence_bit w t (unat (index_from_entity eid)))}"
proof -
  have "wf_world w" using assms(1) by (rule reachable_wf)
  then have "set grp = {eid. matches w filt eid}"
    using assms(2) by (rule wf_groupD(1))
  then show ?thesis by (simp add: matches_def)
qed

theorem cached_group_exact_witness:
  "set [0 :: entity] = {eid. valid example_world eid
      \<and> (\<forall>t. dtl_contains [True, True] t
            \<longrightarrow> presence_bit example_world t (unat (index_from_entity eid)))}"
proof -
  have "([True, True], [0]) \<in> set (m_groups example_world)"
    by (simp add: example_world_def)
  from cached_group_exact[OF example_world_reachable this] show ?thesis .
qed

text \<open>
  C9. In every reachable world, \<open>has<T>(id)\<close> returns, without failing, whether the
  identifier is valid and the presence bit of \<open>T\<close> at its index is set; it returns
  false for an invalid identifier and for a type that the world does not manage.
\<close>

theorem has_iff_valid_and_bit:
  assumes "reachable w"
  shows "has w T eid = Inr (valid w eid \<and> type_presence_bit w T (unat (index_from_entity eid)))
    \<and> (\<not> valid w eid \<longrightarrow> has w T eid = Inr False)
    \<and> (\<not> contains_type w T \<longrightarrow> has w T eid = Inr False)"
proof -
  have wt: "wf_types w" using reachable_wf[OF assms] by (simp add: wf_world_def)
  show ?thesis
  proof (cases "map_of (m_type_positions w) T")
    case None
    then show ?thesis by (simp add: has_def contains_type_def type_presence_bit_def)
  next
    case (Some tp)
    then have "tp < length (m_metabuffers w)" using wf_types_position(1)[OF wt] by simp
    then show ?thesis using Some
      by (simp add: has_def contains_type_def type_presence_bit_def presence_bit_def)
  qed
qed

theorem has_iff_valid_and_bit_witness:
  "has example_world 1 0 = Inr True \<and> has example_world 1 1 = Inr False
   \<and> has example_world 2 0 = Inr False \<and> has example_world 0 (make_entity 1 0) = Inr False"
proof -
  have "valid example_world 0 \<and> type_presence_bit example_world 1 (unat (index_from_entity 0))"
    "\<not> type_presence_bit example_world 1 (unat (index_from_entity 1))"
    "\<not> contains_type example_world 2"
    "\<not> valid example_world (make_entity 1 0)"
    by (simp_all add: example_world_def world_eval type_presence_bit_def)
  then show ?thesis
    using has_iff_valid_and_bit[OF example_world_reachable, of 1 0]
      has_iff_valid_and_bit[OF example_world_reachable, of 1 1]
      has_iff_valid_and_bit[OF example_world_reachable, of 2 0]
      has_iff_valid_and_bit[OF example_world_reachable, of 0 "make_entity 1 0"]
    by auto
qed

text \<open>
  C2, as the code has it. In a reachable world, for a valid entity \<open>e\<close> whose version
  is below \<open>0xFFFFFFFF\<close>, \<open>destroy e\<close> followed by \<open>create\<close> returns an identifier with
  the index of \<open>e\<close> and the version of \<open>e\<close> plus one (without wrap-around); \<open>e\<close> is
  then invalid, the new identifier is valid, and \<open>has\<close> is false for the new identifier
  and every component type.
\<close>

theorem destroy_create_recycles:
  assumes "reachable w" "valid w e" "version_from_entity e < 0xFFFFFFFF"
  shows "\<exists>w1 e' w2. destroy w e = Inr w1 \<and> create w1 [] = Inr (e', w2)
    \<and> index_from_entity e' = index_from_entity e
    \<and> version_from_entity e' = version_from_entity e + 1
    \<and> unat (version_from_entity e') = unat (version_from_entity e) + 1
    \<and> \<not> valid w2 e \<and> valid w2 e'
    \<and> (\<forall>T. has w2 T e' = Inr False)"
proof -
  let ?idx = "index_from_entity e" and ?ver = "version_from_entity e"
  let ?w1 = "w\<lparr> m_metabuffers := map (\<lambda>metabuffer.
                       if dtl_contains metabuffer (unat ?idx)
                       then metabuffer[unat ?idx := False]
                       else metabuffer) (m_metabuffers w),
              m_groups := map (\<lambda>(filt, grp). (filt, sparse_erase grp e)) (m_groups w),
              m_versions := (m_versions w)[unat ?idx := ?ver + 1],
              m_free_list := ?idx # m_free_list w \<rparr>"
  let ?e' = "make_entity (?ver + 1) ?idx"
  let ?w2 = "?w1\<lparr> m_free_list := m_free_list w \<rparr>"
  have in_range: "unat ?idx < length (m_versions w)" using assms(2) by (simp add: valid_iff)
  have d: "destroy w e = Inr ?w1" using assms(2,3) by (rule destroy_eq)
  have c: "create ?w1 [] = Inr (?e', ?w2)"
    using in_range by (simp add: create_def Let_def)
  have v: "\<not> valid ?w2 e" "valid ?w2 ?e'"
    using in_range by (simp_all add: valid_iff)
  have u: "unat (?ver + 1) = unat ?ver + 1" using assms(3) by (rule unat_next_version)
  have wt: "wf_types w" using reachable_wf[OF assms(1)] by (simp add: wf_world_def)
  have h: "has ?w2 T ?e' = Inr False" for T
  proof (cases "map_of (m_type_positions w) T")
    case None
    then show ?thesis by (simp add: has_def contains_type_def)
  next
    case (Some tp)
    then have "tp < length (m_metabuffers w)" using wf_types_position(1)[OF wt] by simp
    then show ?thesis using Some v(2)
      by (simp add: has_def contains_type_def dtl_contains_def)
  qed
  show ?thesis using d c v u h
    by (intro exI[of _ ?w1] exI[of _ ?e'] exI[of _ ?w2]) simp
qed

theorem destroy_create_recycles_witness:
  "\<exists>w1 w2. destroy example_world 0 = Inr w1 \<and> create w1 [] = Inr (make_entity 1 0, w2)
     \<and> has w2 0 (make_entity 1 0) = Inr False \<and> has example_world 0 0 = Inr True"
proof -
  have "valid example_world 0" "version_from_entity (0 :: entity) < 0xFFFFFFFF"
    "has example_world 0 0 = Inr True"
    by (simp_all add: example_world_def world_eval)
  moreover have "make_entity (version_from_entity e' ) (index_from_entity e') = make_entity 1 0"
    if "index_from_entity e' = index_from_entity (0 :: entity)"
      "version_from_entity e' = version_from_entity (0 :: entity) + 1" for e'
    using that by (simp add: index_from_entity_def version_from_entity_def)
  ultimately show ?thesis
    using destroy_create_recycles[OF example_world_reachable, of 0]
    by (metis make_entity_split)
qed

text \<open>
  The claim C2 as stated fails for a valid entity of the last version: the worn world
  is reachable, its entity at index 0 is valid, and \<open>destroy\<close> fails its assertion
  on the version, so that no identifier is created from the slot.
\<close>

theorem destroy_create_last_version:
  "reachable worn_world \<and> valid worn_world (make_entity 0xFFFFFFFF 0)
   \<and> destroy worn_world (make_entity 0xFFFFFFFF 0) = Inl Assertion_failed"
  using worn_world_reachable
  by (simp add: worn_world_def valid_iff destroy_def orphan_def Let_def)

text \<open>
  C4. For an entity that owns the component type \<open>T\<close>, \<open>remove<T>\<close> succeeds, clears
  the presence bit of \<open>T\<close> at the index of the entity, and erases the entity from every
  cached group whose filter includes the position of \<open>T\<close>, whatever the other positions
  of the filter; the groups whose filter does not include that position, all other
  presence bits (of other types, and of \<open>T\<close> at other indices), the versions, the free
  list and the buffers are unchanged.
\<close>

theorem remove_frame:
  assumes "has w T eid = Inr True"
  shows "\<exists>w' tp. remove w T eid = Inr w'
     \<and> map_of (m_type_positions w) T = Some tp
     \<and> \<not> presence_bit w' tp (unat (index_from_entity eid))
     \<and> list_all2 (\<lambda>(filt, grp) (filt', grp'). filt' = filt
          \<and> (if dtl_contains filt tp
              then grp' = sparse_erase grp eid \<and> eid \<notin> set grp' \<and> set grp' = set grp - {eid}
              else grp' = grp)) (m_groups w) (m_groups w')
     \<and> (\<forall>t i. (t, i) \<noteq> (tp, unat (index_from_entity eid))
           \<longrightarrow> presence_bit w' t i = presence_bit w t i)
     \<and> m_versions w' = m_versions w \<and> m_free_list w' = m_free_list w
     \<and> m_type_positions w' = m_type_positions w \<and> m_buffers w' = m_buffers w"
proof -
  from assms obtain tp where v: "valid w eid" and tp: "map_of (m_type_positions w) T = Some tp"
    and pb: "presence_bit w tp (unat (index_from_entity eid))"
    by (auto simp: has_True_iff)
  let ?idx = "unat (index_from_entity eid)"
  let ?w' = "w\<lparr> m_metabuffers := (m_metabuffers w)[tp := (m_metabuffers w ! tp)[?idx := False]],
                            m_groups := map (\<lambda>(filt, grp).
                               if dtl_contains filt tp
                               then (filt, sparse_erase grp eid)
                               else (filt, grp)) (m_groups w) \<rparr>"
  from pb have lt: "tp < length (m_metabuffers w)" by (simp add: presence_bit_def)
  have r: "remove w T eid = Inr ?w'"
    using assms v tp lt by (simp add: remove_def)
  have 1: "\<not> presence_bit ?w' tp ?idx"
    using lt by (simp add: presence_bit_def dtl_contains_def)
  have 2: "list_all2 (\<lambda>(filt, grp) (filt', grp'). filt' = filt
          \<and> (if dtl_contains filt tp
              then grp' = sparse_erase grp eid \<and> eid \<notin> set grp' \<and> set grp' = set grp - {eid}
              else grp' = grp)) (m_groups w) (m_groups ?w')"
    by (auto simp: list_all2_map2 intro!: list_all2_refl)
  have 3: "\<forall>t i. (t, i) \<noteq> (tp, ?idx) \<longrightarrow> presence_bit ?w' t i = presence_bit w t i"
  proof (intro allI impI)
    fix t i assume ne: "(t, i) \<noteq> (tp, ?idx)"
    show "presence_bit ?w' t i = presence_bit w t i"
    proof (cases "t = tp")
      case True
      then have "i \<noteq> ?idx" using ne by simp
      then show ?thesis using True lt by (simp add: presence_bit_def dtl_contains_def)
    next
      case False
      then show ?thesis by (simp add: presence_bit_def dtl_contains_def)
    qed
  qed
  show ?thesis using r tp 1 2 3 by auto
qed

theorem remove_frame_witness:
  "has example_world 0 0 = Inr True
   \<and> (\<exists>w'. remove example_world 0 0 = Inr w' \<and> \<not> presence_bit w' 0 0
         \<and> presence_bit w' 1 0 = presence_bit example_world 1 0
         \<and> m_buffers w' = m_buffers example_world)"
proof -
  have h: "has example_world 0 0 = Inr True"
    by (simp add: example_world_def world_eval)
  have "map_of (m_type_positions example_world) 0 = Some 0"
    "unat (index_from_entity (0 :: entity)) = 0"
    by (simp_all add: example_world_def index_from_entity_def)
  then show ?thesis using h remove_frame[OF h] by fastforce
qed

text \<open>
  C3, as the code has it. \<open>destroy\<close> of a valid entity whose version is below
  \<open>0xFFFFFFFF\<close> succeeds: the entity is erased from every cached group (it is in no
  group afterwards, and the other members stay), all presence bits at its index are
  cleared and no other bit changes, the version of the slot is the old one plus one
  (without wrap-around), and the index is pushed onto the free list. The buffers are
  left as they are: the component values stay stored. \<open>destroy\<close> of an invalid
  identifier fails the assertion of \<open>orphan\<close>.
\<close>

theorem destroy_effects:
  "(valid w eid \<and> version_from_entity eid < 0xFFFFFFFF \<longrightarrow>
      (\<exists>w'. destroy w eid = Inr w'
        \<and> list_all2 (\<lambda>(filt, grp) (filt', grp'). filt' = filt \<and> set grp' = set grp - {eid})
             (m_groups w) (m_groups w')
        \<and> (\<forall>(filt, grp) \<in> set (m_groups w'). eid \<notin> set grp)
        \<and> (\<forall>t. \<not> presence_bit w' t (unat (index_from_entity eid)))
        \<and> (\<forall>t i. i \<noteq> unat (index_from_entity eid) \<longrightarrow> presence_bit w' t i = presence_bit w t i)
        \<and> m_buffers w' = m_buffers w
        \<and> m_versions w' = (m_versions w)[unat (index_from_entity eid) := version_from_entity eid + 1]
        \<and> unat (version_from_entity eid + 1) = unat (version_from_entity eid) + 1
        \<and> m_free_list w' = index_from_entity eid # m_free_list w))
   \<and> (\<not> valid w eid \<longrightarrow> destroy w eid = Inl Assertion_failed)"
proof (intro conjI impI)
  assume a: "valid w eid \<and> version_from_entity eid < 0xFFFFFFFF"
  let ?idx = "unat (index_from_entity eid)"
  let ?w' = "w\<lparr> m_metabuffers := map (\<lambda>metabuffer.
                       if dtl_contains metabuffer ?idx
                       then metabuffer[?idx := False]
                       else metabuffer) (m_metabuffers w),
              m_groups := map (\<lambda>(filt, grp). (filt, sparse_erase grp eid)) (m_groups w),
              m_versions := (m_versions w)[?idx := version_from_entity eid + 1],
              m_free_list := index_from_entity eid # m_free_list w \<rparr>"
  have d: "destroy w eid = Inr ?w'" using a by (simp add: destroy_eq)
  have 1: "list_all2 (\<lambda>(filt, grp) (filt', grp'). filt' = filt \<and> set grp' = set grp - {eid})
             (m_groups w) (m_groups ?w')"
    by (auto simp: list_all2_map2 intro!: list_all2_refl)
  have 2: "\<forall>(filt, grp) \<in> set (m_groups ?w'). eid \<notin> set grp"
    by auto
  have 3: "\<forall>t. \<not> presence_bit ?w' t ?idx"
    by (simp add: presence_bit_cleared)
  have 4: "\<forall>t i. i \<noteq> ?idx \<longrightarrow> presence_bit ?w' t i = presence_bit w t i"
    by (simp add: presence_bit_kept)
  have 5: "unat (version_from_entity eid + 1) = unat (version_from_entity eid) + 1"
    using a by (simp add: unat_next_version)
  show "\<exists>w'. destroy w eid = Inr w'
        \<and> list_all2 (\<lambda>(filt, grp) (filt', grp'). filt' = filt \<and> set grp' = set grp - {eid})
             (m_groups w) (m_groups w')
        \<and> (\<forall>(filt, grp) \<in> set (m_groups w'). eid \<notin> set grp)
        \<and> (\<forall>t. \<not> presence_bit w' t (unat (index_from_entity eid)))
        \<and> (\<forall>t i. i \<noteq> unat (index_from_entity eid) \<longrightarrow> presence_bit w' t i = presence_bit w t i)
        \<and> m_buffers w' = m_buffers w
        \<and> m_versions w' = (m_versions w)[unat (index_from_entity eid) := version_from_entity eid + 1]
        \<and> unat (version_from_entity eid + 1) = unat (version_from_entity eid) + 1
        \<and> m_free_list w' = index_from_entity eid # m_free_list w"
    using d 1 2 3 4 5 by (intro exI[of _ ?w']) simp
next
  assume "\<not> valid w eid"
  then show "destroy w eid = Inl Assertion_failed" by (rule destroy_invalid)
qed

theorem destroy_effects_witness:
  "(\<exists>w'. destroy example_world 0 = Inr w' \<and> m_free_list w' = [0]
        \<and> m_versions w' = [1, 0] \<and> (\<forall>t. \<not> presence_bit w' t 0))
   \<and> destroy example_world (make_entity 1 0) = Inl Assertion_failed"
proof -
  have "\<not> valid example_world (make_entity 1 0)"
    by (simp add: example_world_def valid_iff)
  moreover have "valid example_world 0 \<and> version_from_entity (0 :: entity) < 0xFFFFFFFF"
    "unat (index_from_entity (0 :: entity)) = 0" "index_from_entity (0 :: entity) = 0"
    "version_from_entity (0 :: entity) = 0"
    "m_free_list example_world = []" "m_versions example_world = [0, 0]"
    by (simp_all add: example_world_def valid_iff index_from_entity_def version_from_entity_def)
  ultimately show ?thesis
    using destroy_effects[of example_world 0] destroy_effects[of example_world "make_entity 1 0"]
    by fastforce
qed

text \<open>
  The claim C3 as stated fails in two ways. The entity 0 of the example world owns the
  component 7 of type 0; after \<open>destroy\<close> the value 7 is still in the buffer. And
  \<open>destroy\<close> of the valid entity of the last version fails its assertion.
\<close>

theorem destroy_keeps_component_values:
  "has example_world 0 0 = Inr True
   \<and> m_buffers example_world ! 0 ! 0 = 7
   \<and> (\<exists>w'. destroy example_world 0 = Inr w' \<and> m_buffers w' ! 0 ! 0 = 7)
   \<and> valid worn_world (make_entity 0xFFFFFFFF 0)
   \<and> destroy worn_world (make_entity 0xFFFFFFFF 0) = Inl Assertion_failed"
  by (simp add: example_world_def worn_world_def world_eval)

text \<open>
  C6, as the code has it. The free list is a stack: for two different valid entities
  whose versions are below \<open>0xFFFFFFFF\<close>, after \<open>destroy e1\<close> and \<open>destroy e2\<close> the next
  \<open>create\<close> reuses the index of \<open>e2\<close> and the one after it the index of \<open>e1\<close>, and the
  free list is then as it was.
\<close>

theorem free_list_lifo:
  assumes "valid w e1" "valid w e2" "e1 \<noteq> e2"
    and "version_from_entity e1 < 0xFFFFFFFF" "version_from_entity e2 < 0xFFFFFFFF"
  shows "\<exists>w1 w2 a w3 b w4.
      destroy w e1 = Inr w1 \<and> destroy w1 e2 = Inr w2
    \<and> create w2 [] = Inr (a, w3) \<and> create w3 [] = Inr (b, w4)
    \<and> index_from_entity a = index_from_entity e2
    \<and> index_from_entity b = index_from_entity e1
    \<and> m_free_list w4 = m_free_list w"
proof -
  let ?i1 = "index_from_entity e1" and ?i2 = "index_from_entity e2"
  have ne: "?i1 \<noteq> ?i2"
  proof
    assume eq: "?i1 = ?i2"
    then have "version_from_entity e1 = version_from_entity e2"
      using assms(1,2) by (simp add: valid_iff)
    then have "e1 = e2" using eq by (metis make_entity_split)
    then show False using assms(3) by simp
  qed
  then have une: "unat ?i1 \<noteq> unat ?i2" by (simp add: word_unat_eq_iff)
  obtain w1 where w1: "destroy w e1 = Inr w1"
     and v1: "m_versions w1 = (m_versions w)[unat ?i1 := version_from_entity e1 + 1]"
     and f1: "m_free_list w1 = ?i1 # m_free_list w"
    using assms(1,4) by (simp add: destroy_eq)
  have val2: "valid w1 e2"
    using assms(2) une by (simp add: valid_iff v1)
  obtain w2 where w2: "destroy w1 e2 = Inr w2"
     and v2: "m_versions w2 = (m_versions w1)[unat ?i2 := version_from_entity e2 + 1]"
     and f2: "m_free_list w2 = ?i2 # ?i1 # m_free_list w"
    using val2 assms(5) f1 by (simp add: destroy_eq)
  have l2: "length (m_versions w2) = length (m_versions w)" by (simp add: v1 v2)
  have in1: "unat ?i1 < length (m_versions w)" and in2: "unat ?i2 < length (m_versions w)"
    using assms(1,2) by (simp_all add: valid_iff)
  have c1: "create w2 [] = Inr (make_entity (m_versions w2 ! unat ?i2) ?i2, w2\<lparr> m_free_list := ?i1 # m_free_list w \<rparr>)"
    using f2 in2 l2 by (simp add: create_recycle)
  have c2: "create (w2\<lparr> m_free_list := ?i1 # m_free_list w \<rparr>) [] 
     = Inr (make_entity (m_versions w2 ! unat ?i1) ?i1, w2\<lparr> m_free_list := m_free_list w \<rparr>)"
    using in1 l2 by (simp add: create_recycle)
  show ?thesis
    using w1 w2 c1 c2 by (intro exI conjI) (assumption | simp)+
qed

theorem free_list_lifo_witness:
  "\<exists>w1 w2 a w3 b w4.
      destroy example_world 0 = Inr w1 \<and> destroy w1 1 = Inr w2
    \<and> create w2 [] = Inr (a, w3) \<and> create w3 [] = Inr (b, w4)
    \<and> index_from_entity a = 1 \<and> index_from_entity b = 0"
proof -
  have "valid example_world 0" "valid example_world 1" "(0 :: entity) \<noteq> 1"
    "version_from_entity (0 :: entity) < 0xFFFFFFFF" "version_from_entity (1 :: entity) < 0xFFFFFFFF"
    by (simp_all add: example_world_def valid_iff index_from_entity_def version_from_entity_def)
  from free_list_lifo[OF this] show ?thesis
    by (simp add: index_from_entity_def) blast
qed

text \<open>
  The claim C6 as stated fails for an entity of the last version: both entities of the
  worn world are valid, and the second \<open>destroy\<close> fails its assertion.
\<close>

theorem free_list_last_version:
  "reachable worn_world \<and> valid worn_world 1 \<and> valid worn_world (make_entity 0xFFFFFFFF 0)
   \<and> (\<exists>w1. destroy worn_world 1 = Inr w1
         \<and> destroy w1 (make_entity 0xFFFFFFFF 0) = Inl Assertion_failed)"
  using worn_world_reachable
  by (simp add: worn_world_def world_eval)

section \<open>The group of a view does not depend on the order of the types\<close>

lemma make_filter_set:
  assumes "set ps = set qs"
  shows "make_filter ps n = make_filter qs n"
proof (rule nth_equalityI)
  show "length (make_filter ps n) = length (make_filter qs n)" by simp
next
  fix t assume "t < length (make_filter ps n)"
  then have t: "t < length (replicate (n + 1) False)" by simp
  show "make_filter ps n ! t = make_filter qs n ! t"
    using fold_set_bits[of ps "replicate (n + 1) False"]
      fold_set_bits[of qs "replicate (n + 1) False"] t assms
    unfolding make_filter_def by blast
qed

lemma group_scan_set:
  "set ps = set qs \<Longrightarrow> group_scan mbs ps index vs grp = group_scan mbs qs index vs grp"
  by (induction vs arbitrary: index grp) (simp_all add: list_all_iff)

lemma fold_max_set:
  assumes "set (p # ps) = set (q # qs)"
  shows "fold max ps (p :: nat) = fold max qs q"
proof -
  have "fold max ps p = Max (set (p # ps))" "fold max qs q = Max (set (q # qs))"
    by (rule Max.set_eq_fold[symmetric])+
  then show ?thesis using assms by simp
qed

lemma group_by_set:
  assumes "set ps = set qs"
  shows "group_by w ps = group_by w qs"
proof (cases ps)
  case Nil
  then show ?thesis using assms by simp
next
  case (Cons p ps')
  then obtain q qs' where qs: "qs = q # qs'" using assms by (cases qs) auto
  have m: "fold max ps' p = fold max qs' q"
    using assms Cons qs by (intro fold_max_set) simp
  have f: "make_filter (p # ps') n = make_filter (q # qs') n" for n
    using make_filter_set[OF assms] by (simp add: Cons qs)
  have s: "group_scan mbs (p # ps') index vs grp = group_scan mbs (q # qs') index vs grp"
    for mbs index vs grp
    using group_scan_set[OF assms] by (simp add: Cons qs)
  show ?thesis
    by (simp add: group_by_def Cons qs m Let_def f s split: option.splits)
qed

lemma map_of_appended:
  "map_of gs k = None \<Longrightarrow> map_of (gs @ [(k, x)]) k = Some x"
  by (simp add: map_add_def)

lemma group_by_again:
  assumes "group_by w ps = Inr (v, w1)"
  shows "group_by w1 ps = Inr (v, w1)" "map_of (m_groups w1) v \<noteq> None"
proof -
  from group_by_Inr[OF assms] obtain p rest where ps: "ps = p # rest"
    and lt: "fold max rest p < length (m_type_positions w)"
      "fold max rest p < length (m_metabuffers w)" "fold max rest p < length (m_buffers w)"
    and v: "v = make_filter ps (fold max rest p)"
    and w1: "if map_of (m_groups w) v = None
         then w1 = w\<lparr> m_groups := m_groups w
                  @ [(v, group_scan (m_metabuffers w) ps 0 (m_versions w) [])] \<rparr>
         else w1 = w"
    by blast
  have found: "\<exists>grp. map_of (m_groups w1) v = Some grp"
  proof (cases "map_of (m_groups w) v = None")
    case True
    then show ?thesis using w1 by (simp add: map_add_def)
  next
    case False
    then show ?thesis using w1 by auto
  qed
  then show "map_of (m_groups w1) v \<noteq> None" by auto
  have "length (m_type_positions w1) = length (m_type_positions w)"
    "length (m_metabuffers w1) = length (m_metabuffers w)"
    "length (m_buffers w1) = length (m_buffers w)"
    using w1 by (auto split: if_splits)
  then show "group_by w1 ps = Inr (v, w1)"
    using found lt by (auto simp: group_by_def ps Let_def v[unfolded ps, symmetric])
qed

lemma accommodate_keeps:
  assumes "accommodate w T = Inr (p, w1)" "map_of (m_type_positions w) T' = Some q"
  shows "map_of (m_type_positions w1) T' = Some q"
  using assms
  by (auto simp: accommodate_def Let_def map_add_Some_iff split: option.splits if_splits)

lemma accommodate_succeeds:
  assumes "wf_world w"
  shows "\<exists>p w1. accommodate w T = Inr (p, w1)"
proof (cases "map_of (m_type_positions w) T")
  case None
  have "wf_types w" using assms by (simp add: wf_world_def)
  from accommodate_new[OF None this] show ?thesis by simp
next
  case (Some p)
  then show ?thesis by (simp add: accommodate_old)
qed

lemma group_by_succeeds:
  assumes "fold max rest p < length (m_type_positions w)"
    "fold max rest p < length (m_metabuffers w)" "fold max rest p < length (m_buffers w)"
  shows "\<exists>v w1. group_by w (p # rest) = Inr (v, w1)"
  using assms
  by (cases "map_of (m_groups w) (make_filter (p # rest) (fold max rest p))")
    (simp_all add: group_by_def Let_def)

lemma view_pair:
  assumes "wf_world w" "A \<noteq> B"
  shows "\<exists>a b wb v w1. accommodate_each w [A, B] = Inr ([a, b], wb) \<and> wf_world wb
     \<and> map_of (m_type_positions wb) A = Some a \<and> map_of (m_type_positions wb) B = Some b
     \<and> group_by wb [a, b] = Inr (v, w1) \<and> view w [A, B] = Inr (v, w1)
     \<and> m_type_positions w1 = m_type_positions wb"
proof -
  from accommodate_succeeds[OF assms(1)] obtain a wa where a: "accommodate w A = Inr (a, wa)"
    by blast
  from accommodate_wf[OF assms(1) a] have wfa: "wf_world wa"
    and ma: "map_of (m_type_positions wa) A = Some a" by simp_all
  from accommodate_succeeds[OF wfa] obtain b wb where b: "accommodate wa B = Inr (b, wb)"
    by blast
  from accommodate_wf[OF wfa b] have wfb: "wf_world wb"
    and mb: "map_of (m_type_positions wb) B = Some b" by simp_all
  have ma': "map_of (m_type_positions wb) A = Some a" using accommodate_keeps[OF b ma] .
  have wt: "wf_types wb" using wfb by (simp add: wf_world_def)
  have acc: "accommodate_each w [A, B] = Inr ([a, b], wb)" using a b by simp
  have "max b a < length (m_type_positions wb)" "max b a < length (m_metabuffers wb)"
    "max b a < length (m_buffers wb)"
    using wf_types_position[OF wt ma'] wf_types_position[OF wt mb] by simp_all
  then obtain v w1 where g: "group_by wb [a, b] = Inr (v, w1)"
    using group_by_succeeds[of "[b]" a wb] by auto
  have "m_type_positions w1 = m_type_positions wb"
    using group_by_Inr[OF g] by (auto split: if_splits)
  moreover have "view w [A, B] = Inr (v, w1)" using assms(2) acc g by (simp add: view_def)
  ultimately show ?thesis using acc wfb ma' mb g by blast
qed

lemma view_swapped_again:
  assumes "wf_world w" "A \<noteq> B" "view w [A, B] = Inr (v, w1)"
  shows "view w1 [B, A] = Inr (v, w1)" "view_entities w1 v \<noteq> None"
proof -
  from view_pair[OF assms(1,2)] assms(3) obtain a b wb where
    ma: "map_of (m_type_positions wb) A = Some a" and mb: "map_of (m_type_positions wb) B = Some b"
    and g: "group_by wb [a, b] = Inr (v, w1)" and tps: "m_type_positions w1 = m_type_positions wb"
    by auto
  have "accommodate_each w1 [B, A] = Inr ([b, a], w1)"
    using ma mb tps by (simp add: accommodate_old)
  moreover have "group_by w1 [b, a] = Inr (v, w1)"
    using group_by_again(1)[OF g] group_by_set[of "[b, a]" "[a, b]" w1] by auto
  ultimately show "view w1 [B, A] = Inr (v, w1)" using assms(2) by (simp add: view_def)
  show "view_entities w1 v \<noteq> None"
    using group_by_again(2)[OF g] by (simp add: view_entities_def)
qed

lemma group_by_other_types:
  assumes "length X = length (m_type_positions w)"
  shows "group_by (w\<lparr> m_type_positions := X \<rparr>) ps =
     map_sum id (\<lambda>(v, w1). (v, w1\<lparr> m_type_positions := X \<rparr>)) (group_by w ps)"
  using assms
  by (auto simp: group_by_def Let_def split: list.splits option.splits)

lemma accommodate_each_swapped:
  assumes "wf_types w" "A \<noteq> B" "accommodate_each w [A, B] = Inr ([a, b], wb)"
  shows "\<exists>ps X. accommodate_each w [B, A] = Inr (ps, wb\<lparr> m_type_positions := X \<rparr>)
     \<and> set ps = {a, b} \<and> length X = length (m_type_positions wb)"
proof -
  let ?n = "length (m_type_positions w)"
  have len: "length (m_buffers w) = ?n" "length (m_metabuffers w) = ?n"
    using assms(1) by (simp_all add: wf_types_def)
  consider (oo) p q where "map_of (m_type_positions w) A = Some p" "map_of (m_type_positions w) B = Some q"
    | (on) p where "map_of (m_type_positions w) A = Some p" "map_of (m_type_positions w) B = None"
    | (no) q where "map_of (m_type_positions w) A = None" "map_of (m_type_positions w) B = Some q"
    | (nn) "map_of (m_type_positions w) A = None" "map_of (m_type_positions w) B = None"
    by (cases "map_of (m_type_positions w) A"; cases "map_of (m_type_positions w) B") auto
  then show ?thesis
  proof cases
    case oo
    then have "wb = w" "a = p" "b = q" "accommodate_each w [B, A] = Inr ([q, p], w)"
      using assms(3) by (simp_all add: accommodate_def)
    then show ?thesis
      by (intro exI[of _ "[q, p]"] exI[of _ "m_type_positions w"]) auto
  next
    case on
    let ?wb = "w\<lparr> m_type_positions := m_type_positions w @ [(B, ?n)],
                m_buffers := m_buffers w @ [[]], m_metabuffers := m_metabuffers w @ [[]] \<rparr>"
    have "wb = ?wb" "a = p" "b = ?n"
      using assms(3) on len by (auto simp: accommodate_def Let_def)
    moreover have "accommodate_each w [B, A] = Inr ([?n, p], ?wb)"
      using on len assms(2) by (simp add: accommodate_def Let_def map_add_def)
    ultimately show ?thesis
      by (intro exI[of _ "[?n, p]"] exI[of _ "m_type_positions ?wb"]) auto
  next
    case no
    let ?wb = "w\<lparr> m_type_positions := m_type_positions w @ [(A, ?n)],
                m_buffers := m_buffers w @ [[]], m_metabuffers := m_metabuffers w @ [[]] \<rparr>"
    have "wb = ?wb" "a = ?n" "b = q"
      using assms(3) no len assms(2) by (auto simp: accommodate_def Let_def map_add_def)
    moreover have "accommodate_each w [B, A] = Inr ([q, ?n], ?wb)"
      using no len assms(2) by (simp add: accommodate_def Let_def map_add_def)
    ultimately show ?thesis
      by (intro exI[of _ "[q, ?n]"] exI[of _ "m_type_positions ?wb"]) auto
  next
    case nn
    let ?wb = "w\<lparr> m_type_positions := m_type_positions w @ [(A, ?n), (B, Suc ?n)],
                m_buffers := m_buffers w @ [[], []], m_metabuffers := m_metabuffers w @ [[], []] \<rparr>"
    have "wb = ?wb" "a = ?n" "b = Suc ?n"
      using assms(3) nn len assms(2) by (auto simp: accommodate_def Let_def map_add_def)
    moreover have "accommodate_each w [B, A] =
        Inr ([?n, Suc ?n], ?wb\<lparr> m_type_positions := m_type_positions w @ [(B, ?n), (A, Suc ?n)] \<rparr>)"
      using nn len assms(2) by (simp add: accommodate_def Let_def map_add_def)
    ultimately show ?thesis
      by (intro exI[of _ "[?n, Suc ?n]"]
          exI[of _ "m_type_positions w @ [(B, ?n), (A, Suc ?n)]"]) auto
  qed
qed

lemma view_swapped_same_start:
  assumes "wf_world w" "A \<noteq> B" "view w [A, B] = Inr (v, w1)"
  shows "\<exists>w2. view w [B, A] = Inr (v, w2) \<and> m_groups w2 = m_groups w1"
proof -
  from view_pair[OF assms(1,2)] assms(3) obtain a b wb where
    acc: "accommodate_each w [A, B] = Inr ([a, b], wb)"
    and g: "group_by wb [a, b] = Inr (v, w1)"
    by auto
  have "wf_types w" using assms(1) by (simp add: wf_world_def)
  from accommodate_each_swapped[OF this assms(2) acc] obtain ps X where
    acc': "accommodate_each w [B, A] = Inr (ps, wb\<lparr> m_type_positions := X \<rparr>)"
    and ps: "set ps = set [a, b]" and X: "length X = length (m_type_positions wb)"
    by auto
  have "group_by (wb\<lparr> m_type_positions := X \<rparr>) ps = Inr (v, w1\<lparr> m_type_positions := X \<rparr>)"
    using group_by_other_types[OF X, of ps] group_by_set[OF ps, of wb] g by simp
  then have "view w [B, A] = Inr (v, w1\<lparr> m_type_positions := X \<rparr>)"
    using acc' assms(2) by (simp add: view_def)
  then show ?thesis by auto
qed

text \<open>
  C5. In a reachable world and for two different component types, \<open>view<A,B>()\<close> and
  \<open>view<B,A>()\<close> return the same cache entry, with the same entities in the same order
  and hence the same size; a second request in the other order finds the entry and
  changes nothing. Generally, \<open>group_by\<close> of two lists of type positions with the same
  elements is the same: the order of the requested types plays no part.
\<close>

theorem view_order_insensitive:
  assumes "reachable w" "A \<noteq> B"
  shows "\<exists>v w1 w2 grp.
      view w [A, B] = Inr (v, w1) \<and> view w [B, A] = Inr (v, w2)
    \<and> view_entities w1 v = Some grp \<and> view_entities w2 v = Some grp
    \<and> view_size w1 v = view_size w2 v
    \<and> view w1 [B, A] = Inr (v, w1)
    \<and> view w2 [A, B] = Inr (v, w2)
    \<and> (\<forall>ps qs. set ps = set qs \<longrightarrow> group_by w ps = group_by w qs)"
proof -
  have wf: "wf_world w" using assms(1) by (rule reachable_wf)
  from view_pair[OF wf assms(2)] obtain v w1 where 1: "view w [A, B] = Inr (v, w1)"
    by blast
  from view_swapped_same_start[OF wf assms(2) 1] obtain w2 where
    2: "view w [B, A] = Inr (v, w2)" and g: "m_groups w2 = m_groups w1"
    by blast
  have 3: "view w1 [B, A] = Inr (v, w1)" and "view_entities w1 v \<noteq> None"
    using view_swapped_again[OF wf assms(2) 1] by simp_all
  then obtain grp where 4: "view_entities w1 v = Some grp" by auto
  have 5: "view_entities w2 v = Some grp" using 4 g by (simp add: view_entities_def)
  have 6: "view w2 [A, B] = Inr (v, w2)"
    using view_swapped_again(1)[OF wf _ 2] assms(2) by simp
  have 7: "view_size w1 v = view_size w2 v" using 4 5 by (simp add: view_size_def)
  show ?thesis using 1 2 3 4 5 6 7 group_by_set by blast
qed

theorem view_order_insensitive_witness:
  "\<exists>w2. view example_world [1, 0] = Inr ([True, True], w2)
     \<and> view_entities w2 [True, True] = Some [0]
     \<and> view example_world [0, 1] = Inr ([True, True], example_world)"
proof -
  have e: "view example_world [0, 1] = Inr ([True, True], example_world)"
    "view_entities example_world [True, True] = Some [0]"
    by (simp_all add: example_world_def world_eval)
  from view_order_insensitive[OF example_world_reachable, of 0 1]
  obtain v w1 w2 grp where "view example_world [0, 1] = Inr (v, w1)"
    "view example_world [1, 0] = Inr (v, w2)"
    "view_entities w1 v = Some grp" "view_entities w2 v = Some grp"
    by auto
  then show ?thesis using e by auto
qed

section \<open>The scenario of a hundred entities\<close>

lemma fresh_entity: "n < 4294967296 \<Longrightarrow> (of_nat n :: entity) = entity_at n"
proof -
  assume n: "n < 4294967296"
  have small: "k < 32" if "bit n k" for k
  proof -
    have "n < 2 ^ 32" using n by simp
    then have "take_bit 32 n = n" by (simp only: take_bit_nat_eq_self_iff)
    then have "bit (take_bit 32 n) k" using that by simp
    then show ?thesis by (simp add: bit_take_bit_iff)
  qed
  show ?thesis
    unfolding entity_at_def make_entity_def
    by (rule bit_word_eqI) (auto simp: bit_simps dest: small)
qed

lemma entity_at_simps [simp]:
  "i < 4294967296 \<Longrightarrow> unat (index_from_entity (entity_at i)) = i"
  "version_from_entity (entity_at i) = 0"
  by (simp_all add: entity_at_def unat_of_nat_index)

lemma entity_at_inj:
  assumes "i < 4294967296" "j < 4294967296" "entity_at i = entity_at j"
  shows "i = j"
proof -
  have "unat (index_from_entity (entity_at i)) = unat (index_from_entity (entity_at j))"
    using assms(3) by simp
  then show ?thesis using assms(1,2) by simp
qed

lemma entity_at_notin:
  assumes "i < 4294967296" "hi \<le> 4294967296" "i \<notin> {lo..<hi}"
  shows "entity_at i \<notin> set (map entity_at [lo..<hi])"
proof
  assume "entity_at i \<in> set (map entity_at [lo..<hi])"
  then obtain j where j: "j \<in> {lo..<hi}" "entity_at i = entity_at j" by auto
  then have "j < 4294967296" using assms(2) by simp
  from entity_at_inj[OF assms(1) this j(2)] show False using j(1) assms(3) by simp
qed

lemma create_n_fresh:
  "m_free_list w = [] \<Longrightarrow> length (m_versions w) + n \<le> 4294967295 \<Longrightarrow>
     create_n w [] n = Inr (map entity_at [length (m_versions w)..<length (m_versions w) + n],
       w\<lparr> m_versions := m_versions w @ replicate n 0 \<rparr>)"
proof (induction n arbitrary: w)
  case 0
  then show ?case by simp
next
  case (Suc n)
  let ?k = "length (m_versions w)"
  let ?w1 = "w\<lparr> m_versions := m_versions w @ [0] \<rparr>"
  have c: "create w [] = Inr (entity_at ?k, ?w1)"
    using Suc.prems by (simp add: create_def Let_def fresh_entity)
  have "create_n ?w1 [] n = Inr (map entity_at [length (m_versions ?w1)..<length (m_versions ?w1) + n],
       ?w1\<lparr> m_versions := m_versions ?w1 @ replicate n 0 \<rparr>)"
    using Suc.prems by (intro Suc.IH) simp_all
  then have r: "create_n ?w1 [] n = Inr (map entity_at [Suc ?k..<Suc ?k + n],
       w\<lparr> m_versions := m_versions w @ replicate (Suc n) 0 \<rparr>)"
    by simp
  have u: "[?k..<?k + Suc n] = ?k # [Suc ?k..<Suc ?k + n]"
    by (simp add: upt_conv_Cons del: upt_Suc)
  show ?case unfolding u using c r by simp
qed

lemma dtl_contains_small:
  "dtl_contains [True] i \<longleftrightarrow> i = 0"
  "dtl_contains [False, True] i \<longleftrightarrow> i = 1"
  "dtl_contains [True, True] i \<longleftrightarrow> i = 0 \<or> i = 1"
  by (auto simp: dtl_contains_def nth_Cons split: nat.splits)

lemma all_filter_bits:
  "(\<forall>i. dtl_contains [True] i \<longrightarrow> P i) \<longleftrightarrow> P 0"
  "(\<forall>i. dtl_contains [False, True] i \<longrightarrow> P i) \<longleftrightarrow> P 1"
  "(\<forall>i. dtl_contains [True, True] i \<longrightarrow> P i) \<longleftrightarrow> P 0 \<and> P 1"
  by (auto simp: dtl_contains_small)

lemma dtl_contains_bits:
  "dtl_contains (replicate c False @ replicate n True) i \<longleftrightarrow> c \<le> i \<and> i < c + n"
  by (auto simp: dtl_contains_def nth_append)

lemma dtl_contains_replicate_True:
  "dtl_contains (replicate n True) i \<longleftrightarrow> i < n"
  by (auto simp: dtl_contains_def)

lemma set_presence_end:
  "set_presence (replicate n True) n = replicate (Suc n) True"
proof -
  have "(replicate n True @ [False])[length (replicate n True) := True] = replicate n True @ [True]"
    by (rule list_update_length)
  then show ?thesis
    by (simp add: set_presence_def bitset_resize_def Let_def replicate_append_same)
qed

lemma store_component_end:
  "store_component (replicate n d) n d d = replicate (Suc n) d"
proof -
  have "(replicate n d @ [d])[length (replicate n d) := d] = replicate n d @ [d]"
    by (rule list_update_length)
  then show ?thesis
    by (simp add: store_component_def Let_def replicate_append_same)
qed

lemma sparse_insert_next:
  assumes "hi < 4294967296" "lo \<le> hi"
  shows "sparse_insert (map entity_at [lo..<hi]) (entity_at hi) = map entity_at [lo..<Suc hi]"
  using assms entity_at_notin[of hi hi lo]
  by (simp add: sparse_insert_def sparse_contains_def)

lemma sparse_erase_first:
  assumes "hi \<le> 4294967296"
  shows "sparse_erase (map entity_at [lo..<hi]) (entity_at lo) = map entity_at [Suc lo..<hi]"
proof (cases "lo < hi")
  case True
  then have "lo < 4294967296" using assms by simp
  from entity_at_notin[OF this assms, of "Suc lo"]
  have "removeAll (entity_at lo) (map entity_at [Suc lo..<hi]) = map entity_at [Suc lo..<hi]"
    by (intro removeAll_id) simp
  then show ?thesis using True by (simp add: sparse_erase_def upt_conv_Cons)
next
  case False
  then show ?thesis by (simp add: sparse_erase_def)
qed

lemma dtl_contains_Nil [simp]: "\<not> dtl_contains [] i"
  by (simp add: dtl_contains_def)

lemma reset_first_set_bit:
  "(replicate c False @ replicate (Suc n) True)[c := False]
     = replicate (Suc c) False @ replicate n True"
proof -
  have "(replicate c False @ True # replicate n True)[length (replicate c False) := False]
      = replicate c False @ False # replicate n True"
    by (rule list_update_length)
  then show ?thesis by (simp add: replicate_append_same)
qed

lemmas scenario_simps = dtl_contains_small all_filter_bits dtl_contains_bits
  dtl_contains_replicate_True set_presence_end store_component_end sparse_contains_def

lemma scenario_valid: "i < 100 \<Longrightarrow> valid (scenario_world a b c) (entity_at i)"
  by (simp add: valid_iff scenario_world_def)

lemma scenario_fields:
  "m_type_positions (scenario_world a b c) = [(0, 0), (1, 1)]"
  "m_metabuffers (scenario_world a b c)
     = [replicate c False @ replicate (a - c) True, replicate b True]"
  "m_buffers (scenario_world a b c) = [replicate a 0, replicate b 0]"
  "m_groups (scenario_world a b c) = [([True], map entity_at [c..<a]),
      ([False, True], map entity_at [0..<b]), ([True, True], map entity_at [c..<min a b])]"
  by (simp_all add: scenario_world_def)

lemma assign_c0_step:
  assumes "a < 100"
  shows "assign (scenario_world a 0 0) 0 0 (entity_at a) 0 = Inr (scenario_world (Suc a) 0 0)"
proof -
  let ?w = "scenario_world a 0 0"
  have v: "valid ?w (entity_at a)" using assms by (rule scenario_valid)
  have idx: "unat (index_from_entity (entity_at a)) = a" using assms by simp
  have h: "has ?w 0 (entity_at a) = Inr False"
    using v by (simp add: has_def contains_type_def scenario_fields idx scenario_simps)
  have acc: "accommodate ?w 0 = Inr (0, ?w)"
    by (simp add: accommodate_def scenario_fields)
  let ?mbs = "[replicate (Suc a) True, []]"
  have mbs: "(m_metabuffers ?w)[0 := set_presence (m_metabuffers ?w ! 0) a] = ?mbs"
    by (simp add: scenario_fields scenario_simps del: replicate_Suc)
  have notin: "entity_at a \<notin> set (map entity_at [0..<a])"
    using assms by (intro entity_at_notin) simp_all
  have ins: "sparse_insert (map entity_at [0..<a]) (entity_at a) = map entity_at [0..<Suc a]"
    using assms by (intro sparse_insert_next) simp_all
  have gs: "assign_groups ?mbs 0 (entity_at a) (m_groups ?w)
      = Inr [([True], map entity_at [0..<Suc a]), ([False, True], []), ([True, True], [])]"
    using notin
    by (subst assign_groups_in_range)
      (simp_all add: scenario_fields idx ins scenario_simps del: replicate_Suc upt_Suc)
  have buf: "(m_buffers ?w)[0 := store_component (m_buffers ?w ! 0) a 0 0]
      = [replicate (Suc a) 0, []]"
    by (simp add: scenario_fields scenario_simps del: replicate_Suc)
  have "assign ?w 0 0 (entity_at a) 0 = Inr (?w\<lparr> m_metabuffers := ?mbs,
      m_groups := [([True], map entity_at [0..<Suc a]), ([False, True], []), ([True, True], [])],
      m_buffers := [replicate (Suc a) 0, []] \<rparr>)"
    using v h acc
    by (simp add: assign_def Let_def idx scenario_fields(1,2,3) set_presence_end
        store_component_end gs del: replicate_Suc upt_Suc)
  then show ?thesis
    by (simp add: scenario_world_def del: replicate_Suc upt_Suc)
qed

lemma assign_c1_step:
  assumes "b < 100"
  shows "assign (scenario_world 100 b 0) 1 0 (entity_at b) 0 = Inr (scenario_world 100 (Suc b) 0)"
proof -
  let ?w = "scenario_world 100 b 0"
  have v: "valid ?w (entity_at b)" using assms by (rule scenario_valid)
  have idx: "unat (index_from_entity (entity_at b)) = b" using assms by simp
  have h: "has ?w 1 (entity_at b) = Inr False"
    using v by (simp add: has_def contains_type_def scenario_fields idx scenario_simps)
  have acc: "accommodate ?w 1 = Inr (1, ?w)"
    by (simp add: accommodate_def scenario_fields)
  let ?mbs = "[replicate 100 True, replicate (Suc b) True]"
  have mbs: "(m_metabuffers ?w)[1 := set_presence (m_metabuffers ?w ! 1) b] = ?mbs"
    by (simp add: scenario_fields scenario_simps del: replicate_Suc)
  have notin: "entity_at b \<notin> set (map entity_at [0..<b])"
    using assms by (intro entity_at_notin) simp_all
  have ins: "sparse_insert (map entity_at [0..<b]) (entity_at b) = map entity_at [0..<Suc b]"
    using assms by (intro sparse_insert_next) simp_all
  have m: "min 100 b = b" "min 100 (Suc b) = Suc b" using assms by simp_all
  have gs: "assign_groups ?mbs (Suc 0) (entity_at b) (m_groups ?w)
      = Inr [([True], map entity_at [0..<100]), ([False, True], map entity_at [0..<Suc b]),
             ([True, True], map entity_at [0..<Suc b])]"
    using notin assms
    by (subst assign_groups_in_range)
      (simp_all add: scenario_fields idx ins m scenario_simps del: replicate_Suc upt_Suc)
  have buf: "(m_buffers ?w)[1 := store_component (m_buffers ?w ! 1) b 0 0]
      = [replicate 100 0, replicate (Suc b) 0]"
    by (simp add: scenario_fields scenario_simps del: replicate_Suc)
  have "assign ?w 1 0 (entity_at b) 0 = Inr (?w\<lparr> m_metabuffers := ?mbs,
      m_groups := [([True], map entity_at [0..<100]), ([False, True], map entity_at [0..<Suc b]),
             ([True, True], map entity_at [0..<Suc b])],
      m_buffers := [replicate 100 0, replicate (Suc b) 0] \<rparr>)"
    using v h acc
    by (simp add: assign_def Let_def idx scenario_fields(1,2,3) set_presence_end
        store_component_end gs del: replicate_Suc upt_Suc)
  then show ?thesis unfolding scenario_world_def m
    by (simp del: replicate_Suc upt_Suc)
qed

lemma remove_c0_step:
  assumes "c < 50"
  shows "remove (scenario_world 100 50 c) 0 (entity_at c) = Inr (scenario_world 100 50 (Suc c))"
proof -
  let ?w = "scenario_world 100 50 c"
  have v: "valid ?w (entity_at c)" using assms by (intro scenario_valid) simp
  have idx: "unat (index_from_entity (entity_at c)) = c" using assms by simp
  have h: "has ?w 0 (entity_at c) = Inr True"
    using v assms by (simp add: has_def contains_type_def scenario_fields idx scenario_simps)
  have tp: "map_of (m_type_positions ?w) 0 = Some 0" by (simp add: scenario_fields)
  have d: "100 - c = Suc (100 - Suc c)" using assms by simp
  have mb: "(replicate c False @ replicate (100 - c) True)[c := False]
      = replicate (Suc c) False @ replicate (100 - Suc c) True"
    unfolding d by (rule reset_first_set_bit)
  have er: "sparse_erase (map entity_at [c..<100]) (entity_at c) = map entity_at [Suc c..<100]"
    "sparse_erase (map entity_at [c..<50]) (entity_at c) = map entity_at [Suc c..<50]"
    by (rule sparse_erase_first, simp)+
  show ?thesis
    unfolding remove_eq[OF h tp]
    by (simp add: scenario_fields idx mb er scenario_simps del: replicate_Suc upt_Suc)
      (simp add: scenario_world_def del: replicate_Suc upt_Suc)
qed

lemma assign_c0_range:
  "a \<le> hi \<Longrightarrow> hi \<le> 100 \<Longrightarrow>
     assign_range (scenario_world a 0 0) 0 0 (map entity_at [a..<hi]) = Inr (scenario_world hi 0 0)"
proof (induction "hi - a" arbitrary: a)
  case 0
  then show ?case by simp
next
  case (Suc k)
  then have lt: "a < hi" "a < 100" by simp_all
  have u: "[a..<hi] = a # [Suc a..<hi]" using lt by (simp add: upt_conv_Cons)
  have "assign_range (scenario_world (Suc a) 0 0) 0 0 (map entity_at [Suc a..<hi])
      = Inr (scenario_world hi 0 0)"
    using Suc by (intro Suc.hyps(1)) simp_all
  then show ?case unfolding u using assign_c0_step[OF lt(2)] by simp
qed

lemma assign_c1_range:
  "b \<le> hi \<Longrightarrow> hi \<le> 100 \<Longrightarrow>
     assign_range (scenario_world 100 b 0) 1 0 (map entity_at [b..<hi])
       = Inr (scenario_world 100 hi 0)"
proof (induction "hi - b" arbitrary: b)
  case 0
  then show ?case by simp
next
  case (Suc k)
  then have lt: "b < hi" "b < 100" by simp_all
  have u: "[b..<hi] = b # [Suc b..<hi]" using lt by (simp add: upt_conv_Cons)
  have "assign_range (scenario_world 100 (Suc b) 0) 1 0 (map entity_at [Suc b..<hi])
      = Inr (scenario_world 100 hi 0)"
    using Suc by (intro Suc.hyps(1)) simp_all
  then show ?case unfolding u using assign_c1_step[OF lt(2)] by simp
qed

lemma remove_c0_range:
  "c \<le> hi \<Longrightarrow> hi \<le> 50 \<Longrightarrow>
     remove_range (scenario_world 100 50 c) 0 (map entity_at [c..<hi])
       = Inr (scenario_world 100 50 hi)"
proof (induction "hi - c" arbitrary: c)
  case 0
  then show ?case by simp
next
  case (Suc k)
  then have lt: "c < hi" "c < 50" by simp_all
  have u: "[c..<hi] = c # [Suc c..<hi]" using lt by (simp add: upt_conv_Cons)
  have "remove_range (scenario_world 100 50 (Suc c)) 0 (map entity_at [Suc c..<hi])
      = Inr (scenario_world 100 50 hi)"
    using Suc by (intro Suc.hyps(1)) simp_all
  then show ?case unfolding u using remove_c0_step[OF lt(2)] by simp
qed

lemma scenario_sizes:
  "view_size (scenario_world a b c) [True] = Some (a - c)"
  "view_size (scenario_world a b c) [False, True] = Some b"
  "view_size (scenario_world a b c) [True, True] = Some (min a b - c)"
  "view_entities (scenario_world a b c) [True, True] = Some (map entity_at [c..<min a b])"
  by (simp_all add: view_size_def view_entities_def scenario_world_def)

text \<open>
  C7. From the empty world, views of \<open>{C0}\<close>, \<open>{C1}\<close> and \<open>{C0, C1}\<close> are created and
  then a hundred entities with no components. After \<open>C0\<close> is assigned to all of them
  the view of \<open>{C0}\<close> has size 100 and the view of \<open>{C0, C1}\<close> size 0. After \<open>C1\<close> is
  assigned to the first 50 the view of \<open>{C1}\<close> has size 50 and the view of
  \<open>{C0, C1}\<close> holds exactly the first 50 entities in creation order. After \<open>C0\<close> is
  removed from the first 25 the view of \<open>{C0, C1}\<close> has size 25 and the view of
  \<open>{C0}\<close> size 75.
\<close>

theorem scenario_view_sizes:
  "\<exists>w1 w2 w3 es w4 w5 w6 w7.
      view (empty_world :: nat world) [0] = Inr ([True], w1)
    \<and> view w1 [1] = Inr ([False, True], w2)
    \<and> view w2 [0, 1] = Inr ([True, True], w3)
    \<and> create_n w3 [] 100 = Inr (es, w4)
    \<and> length es = 100
    \<and> assign_range w4 0 0 es = Inr w5
    \<and> view_size w5 [True] = Some 100
    \<and> view_size w5 [True, True] = Some 0
    \<and> assign_range w5 1 0 (take 50 es) = Inr w6
    \<and> view_size w6 [False, True] = Some 50
    \<and> view_size w6 [True, True] = Some 50
    \<and> view_entities w6 [True, True] = Some (take 50 es)
    \<and> remove_range w6 0 (take 25 es) = Inr w7
    \<and> view_size w7 [True, True] = Some 25
    \<and> view_size w7 [True] = Some 75"
proof -
  define u1 :: "nat world" where
    "u1 = \<lparr> m_free_list = [], m_versions = [], m_type_positions = [(0, 0)],
             m_metabuffers = [[]], m_buffers = [[]], m_groups = [([True], [])] \<rparr>"
  define u2 where "u2 = u1\<lparr> m_type_positions := [(0, 0), (1, 1)], m_metabuffers := [[], []],
      m_buffers := [[], []], m_groups := [([True], []), ([False, True], [])] \<rparr>"
  define u3 where "u3 = u2\<lparr> m_groups := [([True], []), ([False, True], []), ([True, True], [])] \<rparr>"
  define es where "es = map entity_at [0..<100]"
  have v1: "view (empty_world :: nat world) [0] = Inr ([True], u1)"
    by (simp add: world_eval u1_def)
  have v2: "view u1 [1] = Inr ([False, True], u2)"
    by (simp add: world_eval u1_def u2_def)
  have v3: "view u2 [0, 1] = Inr ([True, True], u3)"
    by (simp add: world_eval u1_def u2_def u3_def)
  have "create_n u3 [] 100 = Inr (map entity_at [length (m_versions u3)..<length (m_versions u3) + 100],
      u3\<lparr> m_versions := m_versions u3 @ replicate 100 0 \<rparr>)"
    by (rule create_n_fresh) (simp_all add: u1_def u2_def u3_def)
  moreover have "u3\<lparr> m_versions := m_versions u3 @ replicate 100 0 \<rparr> = scenario_world 0 0 0"
    by (simp add: u1_def u2_def u3_def scenario_world_def del: replicate_Suc)
  moreover have "length (m_versions u3) = 0" by (simp add: u1_def u2_def u3_def)
  ultimately have c: "create_n u3 [] 100 = Inr (es, scenario_world 0 0 0)"
    by (simp add: es_def)
  have len: "length es = 100" by (simp add: es_def)
  have t50: "take 50 es = map entity_at [0..<50]" and t25: "take 25 es = map entity_at [0..<25]"
    by (simp_all add: es_def take_map del: upt_Suc)
  have a0: "assign_range (scenario_world 0 0 0) 0 0 es = Inr (scenario_world 100 0 0)"
    unfolding es_def by (rule assign_c0_range) simp_all
  have a1: "assign_range (scenario_world 100 0 0) 1 0 (take 50 es) = Inr (scenario_world 100 50 0)"
    unfolding t50 by (rule assign_c1_range) simp_all
  have r0: "remove_range (scenario_world 100 50 0) 0 (take 25 es) = Inr (scenario_world 100 50 25)"
    unfolding t25 by (rule remove_c0_range) simp_all
  have s5: "view_size (scenario_world 100 0 0) [True] = Some 100"
    "view_size (scenario_world 100 0 0) [True, True] = Some 0"
    by (simp_all add: scenario_sizes)
  have s6: "view_size (scenario_world 100 50 0) [False, True] = Some 50"
    "view_size (scenario_world 100 50 0) [True, True] = Some 50"
    "view_entities (scenario_world 100 50 0) [True, True] = Some (take 50 es)"
    by (simp_all add: scenario_sizes t50 del: upt_Suc)
  have s7: "view_size (scenario_world 100 50 25) [True, True] = Some 25"
    "view_size (scenario_world 100 50 25) [True] = Some 75"
    by (simp_all add: scenario_sizes)
  show ?thesis
    using v1 v2 v3 c len a0 s5 a1 s6 r0 s7 by blast
qed

theorem scenario_view_sizes_witness:
  "\<exists>w :: nat world. view_size w [True, True] = Some 25 \<and> view_size w [True] = Some 75"
  using scenario_view_sizes by blast

end
